theory Spec2Isabelle
  imports Complex_Main
begin

section \<open>Python values, errors and numpy arrays\<close>

text \<open>
  The exceptions the simulated code can raise. Every \<^verbatim>\<open>raise\<close> of the source and every
  failing library call is a branch \<open>Inl e\<close> of the model.
\<close>

datatype error =
  ValueError | TypeError | AttributeError | IndexError | StopIteration | ZeroDivisionError

text \<open>
  Elements of a Python list handed to the constructor: integers, floats and nested lists.
\<close>

datatype pyval = PyInt int | PyFloat real | PyList "pyval list"

text \<open>
  A double is a finite number, idealised as a real, or one of the special values of
  IEEE arithmetic.
\<close>

datatype double = is_Fin: Fin (fin: real) | NaN | PInf | MInf

text \<open>
  A numpy array is its shape and its C-contiguous buffer. An array of finite numbers is
  \<open>NDArray\<close> with a buffer of reals; an array with a NaN or an infinite entry is
  \<open>NonFinite\<close> with a buffer of doubles. \<open>entries\<close> is the buffer of either, as
  doubles.
\<close>

datatype ndarray =
    NDArray (shape: "nat list") (flat: "real list")
  | NonFinite (shape: "nat list") (entries: "double list")
where
  "flat (NonFinite s ds) = []"
| "entries (NDArray s xs) = map Fin xs"

definition ndim :: "ndarray \<Rightarrow> nat" where
  "ndim a = length (shape a)"

definition nrows :: "ndarray \<Rightarrow> nat" where
  "nrows a = shape a ! 0"

definition ncols :: "ndarray \<Rightarrow> nat" where
  "ncols a = shape a ! 1"

text \<open>\<^verbatim>\<open>a[i, j]\<close>, \<^verbatim>\<open>a[i]\<close> and \<^verbatim>\<open>a[:, j]\<close> of a 2-D array, for indices in range.\<close>

definition at2 :: "ndarray \<Rightarrow> nat \<Rightarrow> nat \<Rightarrow> real" where
  "at2 a i j = flat a ! (i * ncols a + j)"

definition row :: "ndarray \<Rightarrow> nat \<Rightarrow> real list" where
  "row a i = map (at2 a i) [0..<ncols a]"

definition column :: "ndarray \<Rightarrow> nat \<Rightarrow> real list" where
  "column a j = map (\<lambda>i. at2 a i j) [0..<nrows a]"

text \<open>The same row and column, as doubles, of an array of either kind.\<close>

definition entry :: "ndarray \<Rightarrow> nat \<Rightarrow> nat \<Rightarrow> double" where
  "entry a i j = entries a ! (i * ncols a + j)"

definition entries_row :: "ndarray \<Rightarrow> nat \<Rightarrow> double list" where
  "entries_row a i = map (entry a i) [0..<ncols a]"

definition entries_column :: "ndarray \<Rightarrow> nat \<Rightarrow> double list" where
  "entries_column a j = map (\<lambda>i. entry a i j) [0..<nrows a]"

text \<open>\<^verbatim>\<open>a.T\<close> of a 2-D array.\<close>

definition ndarray_T :: "ndarray \<Rightarrow> ndarray" where
  "ndarray_T a =
     (case a of
        NDArray s xs \<Rightarrow> NDArray [ncols a, nrows a] (concat (map (column a) [0..<ncols a]))
      | NonFinite s ds \<Rightarrow>
          NonFinite [ncols a, nrows a] (concat (map (entries_column a) [0..<ncols a])))"

text \<open>\<^verbatim>\<open>a[i, j] = v\<close> for indices in range.\<close>

definition set2 :: "ndarray \<Rightarrow> nat \<Rightarrow> nat \<Rightarrow> real \<Rightarrow> ndarray" where
  "set2 a i j v = NDArray (shape a) ((flat a)[i * ncols a + j := v])"

text \<open>
  \<^verbatim>\<open>np.zeros([r, c])\<close> is \<open>np_full r c 0\<close> and \<^verbatim>\<open>np.ones((r, c)) * v\<close> is
  \<open>np_full r c v\<close>; numpy refuses a negative dimension.
\<close>

definition np_full :: "int \<Rightarrow> int \<Rightarrow> real \<Rightarrow> error + ndarray" where
  "np_full r c v =
     (if r < 0 \<or> c < 0 then Inl ValueError
      else Inr (NDArray [nat r, nat c] (replicate (nat r * nat c) v)))"

text \<open>
  \<^verbatim>\<open>np.fill_diagonal(a, v)\<close> writes \<open>a[i, i]\<close> for every \<open>i\<close> below both dimensions.
  \<^verbatim>\<open>np.fill_diagonal(a[:, 1:], v)\<close> fills the diagonal of the view without the first
  column, which is \<open>a[i, i + 1]\<close> of the array itself.
\<close>

definition fill_diagonal :: "ndarray \<Rightarrow> real \<Rightarrow> ndarray" where
  "fill_diagonal a v = fold (\<lambda>i b. set2 b i i v) [0..<min (nrows a) (ncols a)] a"

definition fill_diagonal_from_col1 :: "ndarray \<Rightarrow> real \<Rightarrow> ndarray" where
  "fill_diagonal_from_col1 a v =
     fold (\<lambda>i b. set2 b i (Suc i) v) [0..<min (nrows a) (ncols a - 1)] a"

text \<open>
  \<^verbatim>\<open>np.ndarray(L)\<close> for a Python list \<open>L\<close>: the first positional argument of the
  \<^verbatim>\<open>ndarray\<close> constructor is the shape. Every element has to be an integer (a float or
  a list raises TypeError), no dimension may be negative, and the buffer of the new array
  is whatever the allocated memory holds (\<open>mem\<close>).
\<close>

fun is_PyInt :: "pyval \<Rightarrow> bool" where
  "is_PyInt (PyInt k) = True"
| "is_PyInt (PyFloat x) = False"
| "is_PyInt (PyList xs) = False"

fun int_of_pyval :: "pyval \<Rightarrow> int" where
  "int_of_pyval (PyInt k) = k"
| "int_of_pyval (PyFloat x) = 0"
| "int_of_pyval (PyList xs) = 0"

definition np_ndarray :: "(nat \<Rightarrow> real) \<Rightarrow> pyval list \<Rightarrow> error + ndarray" where
  "np_ndarray mem L =
     (if \<not> list_all is_PyInt L then Inl TypeError
      else if \<not> list_all (\<lambda>v. 0 \<le> int_of_pyval v) L then Inl ValueError
      else let s = map (\<lambda>v. nat (int_of_pyval v)) L
           in Inr (NDArray s (map mem [0..<prod_list s])))"

section \<open>The random number generator and the sums of numpy\<close>

text \<open>
  numpy's generator is not part of the repository: it is a parameter. \<open>seed_rng s\<close> is
  the generator \<^verbatim>\<open>np.random.default_rng(s)\<close> for an integer seed, and
  \<open>rng_choice g n sz p\<close> is \<^verbatim>\<open>g.choice(n, size=sz, p=p)\<close>: the draws and the
  advanced generator, or the error numpy raises. \<open>np_sum ds\<close> is the double that
  \<^verbatim>\<open>sum\<close> returns for the doubles \<open>ds\<close>, rounded as numpy rounds it. What is not
  determined by the program (the generator seeded from the operating system when the
  seed is None, the contents of fresh memory) is the \<open>ambient\<close> of a call.
\<close>

record 'g numpy =
  seed_rng :: "nat \<Rightarrow> 'g"
  rng_choice :: "'g \<Rightarrow> nat \<Rightarrow> nat \<Rightarrow> real list \<Rightarrow> error + nat list \<times> 'g"
  np_sum :: "double list \<Rightarrow> double"

text \<open>\<^verbatim>\<open>a.sum(axis=1)\<close> and \<^verbatim>\<open>a.sum(axis=0)\<close> of a 2-D array.\<close>

definition sum_axis1 :: "'g numpy \<Rightarrow> ndarray \<Rightarrow> double list" where
  "sum_axis1 np a = map (\<lambda>i. np_sum np (entries_row a i)) [0..<nrows a]"

definition sum_axis0 :: "'g numpy \<Rightarrow> ndarray \<Rightarrow> double list" where
  "sum_axis0 np a = map (\<lambda>j. np_sum np (entries_column a j)) [0..<ncols a]"

record 'g ambient =
  os_rng :: 'g
  heap :: "nat \<Rightarrow> real"

text \<open>\<^verbatim>\<open>np.random.default_rng(seed)\<close>: a negative seed is refused.\<close>

definition default_rng :: "'g numpy \<Rightarrow> 'g ambient \<Rightarrow> int option \<Rightarrow> error + 'g" where
  "default_rng np amb seed =
     (case seed of
        None \<Rightarrow> Inr (os_rng amb)
      | Some s \<Rightarrow> if s < 0 then Inl ValueError else Inr (seed_rng np (nat s)))"

section \<open>The HMM class\<close>

datatype trans_prob_arg =
  ListArg "pyval list" | ArrayArg ndarray | StrArg string | NoneArg

record 'g HMM =
  trans_prob :: ndarray
  n_states :: nat
  rng :: 'g

definition tol :: real where
  "tol = 1 / 10 ^ 12"

text \<open>
  The comparisons \<^verbatim>\<open>abs(s - 1) > 1e-12\<close> and \<^verbatim>\<open>abs(s - 1) < 1e-12\<close> on a double
  \<open>s\<close>. Every comparison with a NaN is false, and an infinite sum is infinitely far
  from one. On a finite double the comparison is the one of the reals with
  \<open>1 / 10 ^ 12\<close>: the difference \<open>s - 1\<close> is exact for \<open>s\<close> between \<open>1 / 2\<close> and 2,
  where it is a multiple of \<open>2 ^ -53\<close>, none of which lies between \<open>1 / 10 ^ 12\<close> and
  the double nearest to it, and it is far from the tolerance elsewhere.
\<close>

fun exceeds_tol :: "double \<Rightarrow> bool" where
  "exceeds_tol (Fin x) = (\<bar>x - 1\<bar> > tol)"
| "exceeds_tol NaN = False"
| "exceeds_tol PInf = True"
| "exceeds_tol MInf = True"

fun below_tol :: "double \<Rightarrow> bool" where
  "below_tol (Fin x) = (\<bar>x - 1\<bar> < tol)"
| "below_tol NaN = False"
| "below_tol PInf = False"
| "below_tol MInf = False"

text \<open>\<^verbatim>\<open>HMM.construct_sequence_trans_prob\<close>; the last row is row \<open>-1\<close>, which an
  array without rows does not have.\<close>

definition construct_sequence_trans_prob :: "real \<Rightarrow> int \<Rightarrow> error + ndarray" where
  "construct_sequence_trans_prob stay_prob n =
     (case np_full n n 0 of
        Inl e \<Rightarrow> Inl e
      | Inr z \<Rightarrow>
          let a = fill_diagonal z stay_prob;
              b = fill_diagonal_from_col1 a (1 - stay_prob)
          in if nrows b = 0 then Inl IndexError
             else Inr (set2 b (nrows b - 1) 0 (1 - stay_prob)))"

text \<open>\<^verbatim>\<open>HMM.construct_uniform_trans_prob\<close>; the division comes first.\<close>

definition construct_uniform_trans_prob :: "real \<Rightarrow> int \<Rightarrow> error + ndarray" where
  "construct_uniform_trans_prob stay_prob n =
     (if n - 1 = 0 then Inl ZeroDivisionError
      else let single_trans_prob = (1 - stay_prob) / real_of_int (n - 1)
           in case np_full n n single_trans_prob of
                Inl e \<Rightarrow> Inl e
              | Inr a \<Rightarrow> Inr (fold (\<lambda>i b. set2 b i i stay_prob) [0..<nat n] a))"

text \<open>
  The checks of \<^verbatim>\<open>HMM.__init__\<close> on an array: the matrix kept, and the warnings
  logged on the way.
\<close>

definition check_array :: "'g numpy \<Rightarrow> ndarray \<Rightarrow> error + ndarray \<times> string list" where
  "check_array np a =
     (if ndim a \<noteq> 2 then Inl ValueError
      else if nrows a \<noteq> ncols a then Inl ValueError
      else if list_ex exceeds_tol (sum_axis1 np a) then
        (if list_all below_tol (sum_axis0 np a)
         then Inr (ndarray_T a, [''Rows of trans_prob matrix must sum to 1. Transpose taken.''])
         else Inl ValueError)
      else Inr (a, []))"

text \<open>
  The first part of \<^verbatim>\<open>HMM.__init__\<close>: the value of \<^verbatim>\<open>self.trans_prob\<close>, \<open>None\<close> when
  no branch assigns the attribute.
\<close>

definition init_trans_prob ::
  "'g numpy \<Rightarrow> 'g ambient \<Rightarrow> trans_prob_arg \<Rightarrow> real option \<Rightarrow> int option
     \<Rightarrow> error + ndarray option" where
  "init_trans_prob np amb arg stay_prob n_states_arg =
     (case (case arg of ListArg L \<Rightarrow> map_sum id ArrayArg (np_ndarray (heap amb) L)
                      | _ \<Rightarrow> Inr arg) of
        Inl e \<Rightarrow> Inl e
      | Inr (ListArg L) \<Rightarrow> Inr None
      | Inr (ArrayArg a) \<Rightarrow> map_sum id (\<lambda>r. Some (fst r)) (check_array np a)
      | Inr (StrArg s) \<Rightarrow>
          if s \<noteq> ''sequence'' \<and> s \<noteq> ''uniform'' then Inl ValueError
          else if n_states_arg = Some 1 then map_sum id Some (np_full 1 1 1)
          else if s = ''sequence'' then
            (case (stay_prob, n_states_arg) of
               (Some p, Some n) \<Rightarrow> map_sum id Some (construct_sequence_trans_prob p n)
             | _ \<Rightarrow> Inl ValueError)
          else
            (case n_states_arg of
               None \<Rightarrow> Inl ValueError
             | Some n \<Rightarrow>
                 (case stay_prob of
                    Some p \<Rightarrow> map_sum id Some (construct_uniform_trans_prob p n)
                  | None \<Rightarrow>
                      if n = 0 then Inl ZeroDivisionError
                      else map_sum id Some
                             (construct_uniform_trans_prob (1 / real_of_int n) n)))
      | Inr NoneArg \<Rightarrow>
          if n_states_arg = Some 1 then map_sum id Some (np_full 1 1 1) else Inr None)"

text \<open>
  \<^verbatim>\<open>HMM.__init__\<close>: the number of states is read off the matrix (an AttributeError
  when no branch has set it), then the generator is created.
\<close>

definition HMM_init ::
  "'g numpy \<Rightarrow> 'g ambient \<Rightarrow> trans_prob_arg \<Rightarrow> real option \<Rightarrow> int option \<Rightarrow> int option
     \<Rightarrow> error + 'g HMM" where
  "HMM_init np amb arg stay_prob n_states_arg random_seed =
     (case init_trans_prob np amb arg stay_prob n_states_arg of
        Inl e \<Rightarrow> Inl e
      | Inr None \<Rightarrow> Inl AttributeError
      | Inr (Some tp) \<Rightarrow>
          (case default_rng np amb random_seed of
             Inl e \<Rightarrow> Inl e
           | Inr g \<Rightarrow> Inr \<lparr>trans_prob = tp, n_states = nrows tp, rng = g\<rparr>))"

section \<open>Sampling a state sequence\<close>

text \<open>
  \<^verbatim>\<open>get_one_hot(values, n_states)\<close> for a 1-D array of labels (the 2-D branch, which
  first takes the argmax of every row, is not reached from the samplers below). The rows
  of \<^verbatim>\<open>np.eye(n_states)\<close> are looked up by label; a label outside the matrix raises
  IndexError. The result is cast to integers.
\<close>

definition unit_row :: "nat \<Rightarrow> nat \<Rightarrow> int list" where
  "unit_row n k = map (\<lambda>j. if j = k then 1 else 0) [0..<n]"

definition eye :: "nat \<Rightarrow> int list list" where
  "eye n = map (unit_row n) [0..<n]"

definition get_one_hot :: "nat list \<Rightarrow> nat option \<Rightarrow> error + int list list" where
  "get_one_hot values n_states_arg =
     (case (case n_states_arg of
              None \<Rightarrow> if values = [] then Inl ValueError else Inr (Max (set values) + 1)
            | Some n \<Rightarrow> Inr n) of
        Inl e \<Rightarrow> Inl e
      | Inr n \<Rightarrow>
          if list_ex (\<lambda>v. n \<le> v) values then Inl IndexError
          else Inr (map (\<lambda>v. eye n ! v) values))"

text \<open>
  \<^verbatim>\<open>choice\<close> on row \<open>i\<close> of the transition matrix. numpy refuses a probability
  vector with a NaN or an infinite entry.
\<close>

definition choice_row ::
  "'g numpy \<Rightarrow> 'g \<Rightarrow> nat \<Rightarrow> nat \<Rightarrow> ndarray \<Rightarrow> nat \<Rightarrow> error + nat list \<times> 'g" where
  "choice_row np g n sz tp i =
     (case tp of
        NDArray s xs \<Rightarrow> rng_choice np g n sz (row tp i)
      | NonFinite s ds \<Rightarrow>
          if list_all is_Fin (entries_row tp i)
          then rng_choice np g n sz (map fin (entries_row tp i))
          else Inl ValueError)"

text \<open>
  The list comprehension of \<^verbatim>\<open>HMM.generate_states\<close>: one call of \<^verbatim>\<open>choice\<close> for
  every state \<open>i\<close>, on row \<open>i\<close> of the transition matrix, in order, each call advancing
  the generator.
\<close>

fun draw_streams ::
  "'g numpy \<Rightarrow> ndarray \<Rightarrow> nat \<Rightarrow> nat \<Rightarrow> nat list \<Rightarrow> 'g \<Rightarrow> error + nat list list \<times> 'g" where
  "draw_streams np tp n sz [] g = Inr ([], g)"
| "draw_streams np tp n sz (i # rest) g =
     (if nrows tp \<le> i then Inl IndexError
      else case choice_row np g n sz tp i of
             Inl e \<Rightarrow> Inl e
           | Inr (xs, g') \<Rightarrow>
               (case draw_streams np tp n sz rest g' of
                  Inl e \<Rightarrow> Inl e
                | Inr (xss, g'') \<Rightarrow> Inr (xs # xss, g'')))"

text \<open>
  The loop of \<^verbatim>\<open>HMM.generate_states\<close> over \<^verbatim>\<open>range(1, n_samples)\<close>. An iterator is
  the list of the values it has not yielded yet; \<^verbatim>\<open>next\<close> on an exhausted iterator
  raises StopIteration, and a label with no iterator raises IndexError. The loop returns
  the labels and the iterators as it leaves them.
\<close>

fun states_loop ::
  "nat list \<Rightarrow> nat list list \<Rightarrow> nat list \<Rightarrow> error + nat list \<times> nat list list" where
  "states_loop [] rands states = Inr (states, rands)"
| "states_loop (sample # rest) rands states =
     (let s = states ! (sample - 1) in
      if length rands \<le> s then Inl IndexError
      else case rands ! s of
             [] \<Rightarrow> Inl StopIteration
           | x # xs \<Rightarrow> states_loop rest (rands[s := xs]) (states[sample := x]))"

definition generate_states :: "'g numpy \<Rightarrow> 'g HMM \<Rightarrow> nat \<Rightarrow> error + int list list \<times> 'g HMM" where
  "generate_states np h n_samples =
     (case draw_streams np (trans_prob h) (n_states h) n_samples [0..<n_states h] (rng h) of
        Inl e \<Rightarrow> Inl e
      | Inr (rands, g) \<Rightarrow>
          (case states_loop [1..<n_samples] rands (replicate n_samples 0) of
             Inl e \<Rightarrow> Inl e
           | Inr (states, rest) \<Rightarrow>
               (case get_one_hot states (Some (n_states h)) of
                  Inl e \<Rightarrow> Inl e
                | Inr one_hot \<Rightarrow> Inr (one_hot, h\<lparr>rng := g\<rparr>))))"

text \<open>Constructing a chain and calling \<^verbatim>\<open>generate_states\<close> on it for the first time.\<close>

definition first_generate_states ::
  "'g numpy \<Rightarrow> 'g ambient \<Rightarrow> trans_prob_arg \<Rightarrow> real option \<Rightarrow> int option \<Rightarrow> int option
     \<Rightarrow> nat \<Rightarrow> error + int list list" where
  "first_generate_states np amb arg stay_prob n_states_arg random_seed n_samples =
     (case HMM_init np amb arg stay_prob n_states_arg random_seed of
        Inl e \<Rightarrow> Inl e
      | Inr h \<Rightarrow> map_sum id fst (generate_states np h n_samples))"

section \<open>The multi-time-scale simulation\<close>

text \<open>
  \<^verbatim>\<open>MS_HMM_MVN.__init__\<close>. The observation model and the base class are not part of the
  sources: \<open>obs_n_modes\<close> is the \<^verbatim>\<open>n_modes\<close> attribute of the observation model the
  constructor has built, \<open>simulate_data\<close> is its method, and the base class stores
  \<^verbatim>\<open>n_samples\<close>. Each of the two chains has its own ambient.
\<close>

record ('g, 't) MS_HMM_MVN =
  ms_n_states :: "int option"
  ms_n_samples :: nat
  alpha_hmm :: "'g HMM"
  gamma_hmm :: "'g HMM"
  state_time_course :: "int list list list"
  time_series :: 't

definition MS_HMM_MVN_init ::
  "'g numpy \<Rightarrow> (int list list list \<Rightarrow> error + 't) \<Rightarrow> 'g ambient \<Rightarrow> 'g ambient \<Rightarrow> int option
     \<Rightarrow> nat \<Rightarrow> trans_prob_arg \<Rightarrow> real option \<Rightarrow> int option \<Rightarrow> error + ('g, 't) MS_HMM_MVN" where
  "MS_HMM_MVN_init np simulate_data amb1 amb2 obs_n_modes n_samples arg stay_prob random_seed =
     (case HMM_init np amb1 arg stay_prob obs_n_modes (map_option (\<lambda>s. s + 1) random_seed) of
        Inl e \<Rightarrow> Inl e
      | Inr a \<Rightarrow>
     (case HMM_init np amb2 arg stay_prob obs_n_modes (map_option (\<lambda>s. s + 2) random_seed) of
        Inl e \<Rightarrow> Inl e
      | Inr g \<Rightarrow>
     (case generate_states np a n_samples of
        Inl e \<Rightarrow> Inl e
      | Inr (alpha, a') \<Rightarrow>
     (case generate_states np g n_samples of
        Inl e \<Rightarrow> Inl e
      | Inr (gamma, g') \<Rightarrow>
     (case simulate_data [alpha, gamma] of
        Inl e \<Rightarrow> Inl e
      | Inr ts \<Rightarrow>
          Inr \<lparr>ms_n_states = obs_n_modes, ms_n_samples = n_samples, alpha_hmm = a',
               gamma_hmm = g', state_time_course = [alpha, gamma], time_series = ts\<rparr>)))))"

section \<open>The hierarchical simulation\<close>

text \<open>
  The top level chain is an \<^verbatim>\<open>HMM\<close> or an \<^verbatim>\<open>HSMM\<close>. The class \<^verbatim>\<open>HSMM\<close> is not part of
  the sources: its \<^verbatim>\<open>generate_states\<close> is the parameter \<open>hsmm_generate\<close>.
\<close>

datatype ('g, 'h) top_level = TopHMM "'g HMM" | TopHSMM 'h

fun top_generate_states ::
  "'g numpy \<Rightarrow> ('h \<Rightarrow> nat \<Rightarrow> error + int list list \<times> 'h) \<Rightarrow> ('g, 'h) top_level \<Rightarrow> nat
     \<Rightarrow> error + int list list \<times> ('g, 'h) top_level" where
  "top_generate_states np hsmm_generate (TopHMM h) n_samples =
     (case generate_states np h n_samples of
        Inl e \<Rightarrow> Inl e
      | Inr (stc, h') \<Rightarrow> Inr (stc, TopHMM h'))"
| "top_generate_states np hsmm_generate (TopHSMM x) n_samples =
     (case hsmm_generate x n_samples of
        Inl e \<Rightarrow> Inl e
      | Inr (stc, x') \<Rightarrow> Inr (stc, TopHSMM x'))"

record ('g, 'h) HierarchicalHMM_MVN =
  hier_n_states :: nat
  top_level_hmm :: "('g, 'h) top_level"
  n_bottom_level_hmms :: nat
  bottom_level_hmms :: "'g HMM list"
  top_level_stc :: "int list list"

text \<open>
  \<^verbatim>\<open>np.empty([r, c])\<close>: an array of the shape asked for, holding whatever the memory
  holds. 2-D results are lists of rows.
\<close>

definition np_empty :: "(nat \<Rightarrow> real) \<Rightarrow> nat \<Rightarrow> nat \<Rightarrow> real list list" where
  "np_empty mem r c = map (\<lambda>i. map (\<lambda>j. mem (i * c + j)) [0..<c]) [0..<r]"

text \<open>
  \<^verbatim>\<open>stc[time_points_active] = values\<close>: row \<open>j\<close> of the values goes to the row of
  \<open>stc\<close> named by the \<open>j\<close>-th index, in order. numpy broadcasts a value row of width 1
  over the row of \<open>stc\<close> and refuses every other width that is not the width of \<open>stc\<close>;
  the integer rows are cast to the floating point type of \<open>stc\<close>.
\<close>

fun assign_rows :: "'a list \<Rightarrow> nat list \<Rightarrow> 'a list \<Rightarrow> 'a list" where
  "assign_rows stc [] vs = stc"
| "assign_rows stc (t # ts) [] = stc"
| "assign_rows stc (t # ts) (v # vs) = assign_rows (stc[t := v]) ts vs"

definition broadcast_row :: "nat \<Rightarrow> int list \<Rightarrow> real list" where
  "broadcast_row width v =
     (if length v = width then map real_of_int v else replicate width (real_of_int (hd v)))"

text \<open>The loop of \<^verbatim>\<open>HierarchicalHMM_MVN.generate_states\<close> over the bottom level chains.\<close>

fun bottom_loop ::
  "'g numpy \<Rightarrow> nat \<Rightarrow> int list list \<Rightarrow> nat \<Rightarrow> nat list \<Rightarrow> 'g HMM list \<Rightarrow> real list list
     \<Rightarrow> error + real list list \<times> 'g HMM list" where
  "bottom_loop np n_samples top_stc width [] hmms stc = Inr (stc, hmms)"
| "bottom_loop np n_samples top_stc width (i # rest) hmms stc =
     (if list_ex (\<lambda>r. length r \<le> i) top_stc then Inl IndexError
      else
        let time_points_active = filter (\<lambda>t. top_stc ! t ! i = 1) [0..<length top_stc] in
        if length hmms \<le> i then Inl IndexError
        else case generate_states np (hmms ! i) n_samples of
               Inl e \<Rightarrow> Inl e
             | Inr (one_hot, h') \<Rightarrow>
                 if n_states (hmms ! i) \<noteq> width \<and> n_states (hmms ! i) \<noteq> 1 then Inl ValueError
                 else bottom_loop np n_samples top_stc width rest (hmms[i := h'])
                        (assign_rows stc time_points_active
                           (map (broadcast_row width)
                              (take (length time_points_active) one_hot))))"

definition hier_generate_states ::
  "'g numpy \<Rightarrow> ('h \<Rightarrow> nat \<Rightarrow> error + int list list \<times> 'h) \<Rightarrow> 'g ambient
     \<Rightarrow> ('g, 'h) HierarchicalHMM_MVN \<Rightarrow> nat
     \<Rightarrow> error + real list list \<times> ('g, 'h) HierarchicalHMM_MVN" where
  "hier_generate_states np hsmm_generate amb sim n_samples =
     (let stc = np_empty (heap amb) n_samples (hier_n_states sim) in
      case top_generate_states np hsmm_generate (top_level_hmm sim) n_samples of
        Inl e \<Rightarrow> Inl e
      | Inr (top_stc, top') \<Rightarrow>
          (case bottom_loop np n_samples top_stc (hier_n_states sim) [0..<n_bottom_level_hmms sim]
                  (bottom_level_hmms sim) stc of
             Inl e \<Rightarrow> Inl e
           | Inr (stc', hmms') \<Rightarrow>
               Inr (stc', sim\<lparr>top_level_hmm := top', top_level_stc := top_stc,
                                bottom_level_hmms := hmms'\<rparr>)))"

section \<open>Well-formed inputs and a generator for evaluation\<close>

text \<open>A 2-D array of shape \<open>(r, c)\<close> whose buffer has \<open>r * c\<close> elements.\<close>

definition wf2 :: "nat \<Rightarrow> nat \<Rightarrow> ndarray \<Rightarrow> bool" where
  "wf2 r c a = (shape a = [r, c] \<and> length (flat a) = r * c)"

text \<open>A seed numpy accepts: None or a non-negative integer.\<close>

definition seed_ok :: "int option \<Rightarrow> bool" where
  "seed_ok seed = (case seed of None \<Rightarrow> True | Some s \<Rightarrow> 0 \<le> s)"

text \<open>
  What the samplers need of \<^verbatim>\<open>Generator.choice\<close>: for a non-negative probability vector
  of length \<open>n > 0\<close> that sums to one within \<open>1e-8\<close> (numpy tolerates the square root of
  the machine epsilon, which is larger), it returns \<open>sz\<close> labels below \<open>n\<close>.
\<close>

definition choice_ok :: "'g numpy \<Rightarrow> bool" where
  "choice_ok np =
     (\<forall>g n sz p.
        0 < n \<and> length p = n \<and> (\<forall>x\<in>set p. 0 \<le> x) \<and> \<bar>sum_list p - 1\<bar> \<le> 1 / 10 ^ 8 \<longrightarrow>
        (\<exists>xs g'. rng_choice np g n sz p = Inr (xs, g') \<and> length xs = sz \<and>
                  (\<forall>x\<in>set xs. x < n)))"

text \<open>
  A valid chain (the transition matrix of the data model): at least one state, a square
  matrix of that size, entries that are not negative, rows that sum to one within the
  tolerance.
\<close>

definition valid_hmm :: "'g HMM \<Rightarrow> bool" where
  "valid_hmm h =
     (0 < n_states h \<and> wf2 (n_states h) (n_states h) (trans_prob h) \<and>
      (\<forall>i<n_states h. (\<forall>x\<in>set (row (trans_prob h) i). 0 \<le> x) \<and>
                       \<bar>sum_list (row (trans_prob h) i) - 1\<bar> \<le> tol))"

text \<open>
  The sum of doubles without rounding: a NaN, or infinities of both signs, give NaN, an
  infinity gives itself, and finite numbers give their sum.
\<close>

definition exact_sum :: "double list \<Rightarrow> double" where
  "exact_sum ds =
     (if NaN \<in> set ds \<or> (PInf \<in> set ds \<and> MInf \<in> set ds) then NaN
      else if PInf \<in> set ds then PInf
      else if MInf \<in> set ds then MInf
      else Fin (sum_list (map fin ds)))"

text \<open>
  A small deterministic numpy, to evaluate the model on concrete inputs: the state of the
  generator is a counter, \<open>choice\<close> checks its arguments as numpy does and yields the
  residues of an affine sequence, and sums are not rounded.
\<close>

definition lcg_numpy :: "nat numpy" where
  "lcg_numpy =
     \<lparr>seed_rng = (\<lambda>s. s),
      rng_choice = (\<lambda>g n sz p.
        if n = 0 \<or> length p \<noteq> n \<or> list_ex (\<lambda>x. x < 0) p \<or> \<bar>sum_list p - 1\<bar> > 1 / 10 ^ 8
        then Inl ValueError
        else Inr (map (\<lambda>k. (5 * (g + k) + 3) mod n) [0..<sz], g + sz)),
      np_sum = exact_sum\<rparr>"

text \<open>A sum that is one within the tolerance: a finite double at most \<open>1e-12\<close> from one.\<close>

fun within_tol :: "double \<Rightarrow> bool" where
  "within_tol (Fin x) = (\<bar>x - 1\<bar> \<le> tol)"
| "within_tol NaN = False"
| "within_tol PInf = False"
| "within_tol MInf = False"

definition zero_ambient :: "nat ambient" where
  "zero_ambient = \<lparr>os_rng = 0, heap = (\<lambda>k. 0)\<rparr>"

text \<open>
  The state of the sampling loop before the iteration for sample \<open>k\<close>: the labels
  below \<open>k\<close> are set, every iterator has yielded as many values as its state occurs
  among the labels below \<open>k - 1\<close>, and every label set so far is the value its
  predecessor's iterator yielded then.
\<close>

definition loop_inv :: "nat list list \<Rightarrow> nat \<Rightarrow> nat \<Rightarrow> nat list list \<Rightarrow> nat list \<Rightarrow> bool" where
  "loop_inv streams n k rands states =
     (length states = n \<and> 1 \<le> k \<and> k \<le> n \<and> length rands = length streams \<and>
      (\<forall>s<length streams.
         rands ! s = drop (count_list (take (k - 1) states) s) (streams ! s)) \<and>
      (\<forall>t<k. states ! t < length streams) \<and> states ! 0 = 0 \<and>
      (\<forall>t. 1 \<le> t \<and> t < k \<longrightarrow>
         states ! t =
           streams ! (states ! (t - 1)) ! count_list (take (t - 1) states) (states ! (t - 1))))"

text \<open>Every stream holds \<open>n\<close> labels, each the index of a stream.\<close>

definition streams_ok :: "nat list list \<Rightarrow> nat \<Rightarrow> bool" where
  "streams_ok streams n =
     (\<forall>s<length streams. length (streams ! s) = n \<and> (\<forall>x\<in>set (streams ! s). x < length streams))"

text \<open>The chain of three states with stay probability \<open>0.9\<close>, seeded with 0.\<close>

definition uniform3 :: "nat HMM" where
  "uniform3 =
     \<lparr>trans_prob = NDArray [3, 3]
        [9 / 10, 1 / 20, 1 / 20, 1 / 20, 9 / 10, 1 / 20, 1 / 20, 1 / 20, 9 / 10],
      n_states = 3, rng = 0\<rparr>"

text \<open>
  A Python list of integers, which \<^verbatim>\<open>np.ndarray\<close> takes for a shape: the only argument
  for which the matrix depends on the contents of fresh memory.
\<close>

definition shape_list :: "trans_prob_arg \<Rightarrow> bool" where
  "shape_list arg = (case arg of ListArg L \<Rightarrow> list_all is_PyInt L | _ \<Rightarrow> False)"

text \<open>A second ambient, to compare two constructions.\<close>

definition other_ambient :: "nat ambient" where
  "other_ambient = \<lparr>os_rng = 41, heap = (\<lambda>k. 1 / 2)\<rparr>"

text \<open>An observation model for evaluation: its data is the number of rows it is given.\<close>

definition count_rows :: "int list list list \<Rightarrow> error + nat" where
  "count_rows stc = Inr (length (concat stc))"

text \<open>
  The sequence a chain returns when \<^verbatim>\<open>generate_states\<close> is called on it (empty if
  the call fails), and the rank of sample \<open>t\<close> among the samples at which the top level
  label \<open>k\<close> is active.
\<close>

definition sample_of :: "'g numpy \<Rightarrow> 'g HMM \<Rightarrow> nat \<Rightarrow> int list list" where
  "sample_of np h n_samples =
     (case generate_states np h n_samples of Inl e \<Rightarrow> [] | Inr (one_hot, h') \<Rightarrow> one_hot)"

definition active_rank :: "int list list \<Rightarrow> nat \<Rightarrow> nat \<Rightarrow> nat" where
  "active_rank top_stc k t = length (filter (\<lambda>u. top_stc ! u ! k = 1) [0..<t])"

text \<open>A one-hot sequence of \<open>n\<close> rows over \<open>K\<close> labels.\<close>

definition one_hot_rows :: "nat \<Rightarrow> nat \<Rightarrow> int list list \<Rightarrow> bool" where
  "one_hot_rows K n stc = (length stc = n \<and> (\<forall>t<n. \<exists>k<K. stc ! t = unit_row K k))"

text \<open>
  A top level chain over \<open>K\<close> labels: a valid \<^verbatim>\<open>HMM\<close> with \<open>K\<close> states, or an
  \<^verbatim>\<open>HSMM\<close> whose \<^verbatim>\<open>generate_states\<close> returns a one-hot sequence of the length asked
  for over \<open>K\<close> labels (its contract; the class is not part of the sources).
\<close>

definition top_ok ::
  "'g numpy \<Rightarrow> ('h \<Rightarrow> nat \<Rightarrow> error + int list list \<times> 'h) \<Rightarrow> nat \<Rightarrow> ('g, 'h) top_level \<Rightarrow> nat
     \<Rightarrow> bool" where
  "top_ok np hsmm_generate K chain n_samples =
     (case chain of
        TopHMM h \<Rightarrow> valid_hmm h \<and> n_states h = K
      | TopHSMM x \<Rightarrow>
          (\<exists>stc x'. hsmm_generate x n_samples = Inr (stc, x') \<and> one_hot_rows K n_samples stc))"

text \<open>A hierarchy for evaluation: two bottom level chains under a top level \<^verbatim>\<open>HMM\<close>.\<close>

definition no_hsmm :: "unit \<Rightarrow> nat \<Rightarrow> error + int list list \<times> unit" where
  "no_hsmm x n_samples = Inl ValueError"

definition hier_example :: "(nat, unit) HierarchicalHMM_MVN" where
  "hier_example =
     \<lparr>hier_n_states = 3,
      top_level_hmm =
        TopHMM \<lparr>trans_prob = NDArray [2, 2] [1 / 2, 1 / 2, 1 / 2, 1 / 2], n_states = 2, rng = 3\<rparr>,
      n_bottom_level_hmms = 2,
      bottom_level_hmms = [uniform3, uniform3\<lparr>rng := 7\<rparr>],
      top_level_stc = []\<rparr>"

section \<open>Entries of the generated matrices\<close>

lemma flat_index_inj:
  "j < c \<Longrightarrow> j' < c \<Longrightarrow> (i * c + j = i' * c + j') = (i = i' \<and> j = (j'::nat))"
proof
  assume b: "j < c" "j' < c" and e: "i * c + j = i' * c + j'"
  have "(i * c + j) div c = i" "(i' * c + j') div c = i'" using b by simp_all
  with e have "i = i'" by metis
  with e show "i = i' \<and> j = j'" by simp
qed simp

lemma flat_index_bound: "i < r \<Longrightarrow> j < c \<Longrightarrow> i * c + j < r * (c::nat)"
proof -
  assume a: "i < r" "j < c"
  have "i * c + j < i * c + c" using a by simp
  also have "\<dots> = Suc i * c" by simp
  also have "\<dots> \<le> r * c" using a by (intro mult_le_mono1) simp
  finally show ?thesis .
qed


lemma wf2_dims: "wf2 r c a \<Longrightarrow> nrows a = r \<and> ncols a = c \<and> ndim a = 2"
  by (simp add: wf2_def nrows_def ncols_def ndim_def)

lemma wf2_set2: "wf2 r c a \<Longrightarrow> wf2 r c (set2 a i j v)"
  by (simp add: wf2_def set2_def)

lemma at2_set2:
  assumes "wf2 r c a" "i < r" "j < c" "j' < c"
  shows "at2 (set2 a i j v) i' j' = (if i' = i \<and> j' = j then v else at2 a i' j')"
proof -
  have s: "shape a = [r, c]" using assms(1) by (simp add: wf2_def)
  have l: "at2 (set2 a i j v) i' j' = (flat a)[i * c + j := v] ! (i' * c + j')"
    by (simp add: at2_def set2_def ncols_def s)
  have r: "at2 a i' j' = flat a ! (i' * c + j')"
    by (simp add: at2_def ncols_def s)
  have b: "i * c + j < length (flat a)"
    using assms flat_index_bound [of i r j c] by (simp add: wf2_def)
  have e: "(i * c + j = i' * c + j') = (i = i' \<and> j = j')"
    using assms(3,4) by (rule flat_index_inj)
  show ?thesis
    unfolding l r using b e by (auto simp: nth_list_update)
qed

lemma fold_set2:
  assumes "wf2 r c a" "k \<le> r" "\<forall>i<k. f i < c"
  shows "wf2 r c (fold (\<lambda>i b. set2 b i (f i) v) [0..<k] a) \<and>
         (\<forall>i'. \<forall>j'<c. at2 (fold (\<lambda>i b. set2 b i (f i) v) [0..<k] a) i' j' =
                  (if i' < k \<and> j' = f i' then v else at2 a i' j'))"
  using assms(2,3)
proof (induction k)
  case 0
  then show ?case using assms(1) by simp
next
  case (Suc k)
  let ?b = "fold (\<lambda>i b. set2 b i (f i) v) [0..<k] a"
  have ih: "wf2 r c ?b"
    "\<forall>i'. \<forall>j'<c. at2 ?b i' j' = (if i' < k \<and> j' = f i' then v else at2 a i' j')"
    using Suc by simp_all
  have k: "k < r" "f k < c" using Suc.prems by simp_all
  show ?case
    using ih k by (auto simp: wf2_set2 at2_set2 [OF ih(1) k] less_Suc_eq)
qed

lemma wf2_np_full: "0 \<le> r \<Longrightarrow> 0 \<le> c \<Longrightarrow> np_full r c v = Inr a \<Longrightarrow> wf2 (nat r) (nat c) a"
  by (auto simp: np_full_def wf2_def)

lemma at2_np_full:
  "np_full r c v = Inr a \<Longrightarrow> i < nat r \<Longrightarrow> j < nat c \<Longrightarrow> at2 a i j = v"
  using flat_index_bound [of i "nat r" j "nat c"]
  by (auto simp: np_full_def at2_def ncols_def split: if_splits)


lemma default_rng_ok: "seed_ok seed \<Longrightarrow> \<exists>g. default_rng np amb seed = Inr g"
  by (auto simp: seed_ok_def default_rng_def split: option.splits)

lemma construct_sequence_entries:
  assumes n: "2 \<le> n"
  shows "\<exists>a. construct_sequence_trans_prob p n = Inr a \<and> wf2 (nat n) (nat n) a \<and>
           (\<forall>i<nat n. \<forall>j<nat n. at2 a i j =
              (if j = i then p else if j = Suc i mod nat n then 1 - p else 0))"
proof -
  define N where "N = nat n"
  have N: "2 \<le> N" using n by (simp add: N_def)
  define z where "z = NDArray [N, N] (replicate (N * N) 0)"
  have fz: "np_full n n 0 = Inr z" using n by (simp add: np_full_def z_def N_def)
  have wz: "wf2 N N z" by (simp add: wf2_def z_def)
  have z0: "\<forall>i<N. \<forall>j<N. at2 z i j = 0"
    using at2_np_full [OF fz] by (simp add: N_def)
  define a where "a = fill_diagonal z p"
  have a_eq: "a = fold (\<lambda>i b. set2 b i i p) [0..<N] z"
    using wf2_dims [OF wz] by (simp add: a_def fill_diagonal_def)
  have fa: "wf2 N N a \<and> (\<forall>i'. \<forall>j'<N. at2 a i' j' = (if i' < N \<and> j' = i' then p else at2 z i' j'))"
    unfolding a_eq by (rule fold_set2 [OF wz]) simp_all
  define b where "b = fill_diagonal_from_col1 a (1 - p)"
  have b_eq: "b = fold (\<lambda>i b. set2 b i (Suc i) (1 - p)) [0..<N - 1] a"
    using wf2_dims [of N N a] fa by (simp add: b_def fill_diagonal_from_col1_def)
  have fb: "wf2 N N b \<and>
      (\<forall>i'. \<forall>j'<N. at2 b i' j' = (if i' < N - 1 \<and> j' = Suc i' then 1 - p else at2 a i' j'))"
    unfolding b_eq using fa by (intro fold_set2) auto
  define c where "c = set2 b (N - 1) 0 (1 - p)"
  have rb: "nrows b = N" using wf2_dims [of N N b] fb by simp
  have res: "construct_sequence_trans_prob p n = Inr c"
    using N by (simp add: construct_sequence_trans_prob_def fz a_def [symmetric]
        b_def [symmetric] rb c_def Let_def)
  have wc: "wf2 N N c" using fb by (simp add: c_def wf2_set2)
  have ec: "at2 c i j = (if j = i then p else if j = Suc i mod N then 1 - p else 0)"
    if ij: "i < N" "j < N" for i j
  proof -
    have "at2 c i j = (if i = N - 1 \<and> j = 0 then 1 - p else at2 b i j)"
      unfolding c_def using fb N ij by (subst at2_set2 [of N N]) auto
    also have "at2 b i j = (if i < N - 1 \<and> j = Suc i then 1 - p else at2 a i j)"
      using fb ij by simp
    also have "at2 a i j = (if j = i then p else 0)"
      using fa z0 ij by simp
    finally show ?thesis
      using N ij by (auto simp: mod_Suc)
  qed
  show ?thesis using res wc ec by (auto simp: N_def)
qed

lemma sum_list_delta:
  "i < n \<Longrightarrow> sum_list (map (\<lambda>j. if j = i then p else (s::real)) [0..<n]) = p + real (n - 1) * s"
proof (induction n)
  case 0
  then show ?case by simp
next
  case (Suc n)
  show ?case
  proof (cases "i = n")
    case True
    have e: "(\<Sum>j\<leftarrow>[0..<n]. if j = n then p else s) = (\<Sum>j\<leftarrow>[0..<n]. s)"
      by (intro arg_cong [where f = sum_list] map_cong) auto
    show ?thesis using True by (simp add: e sum_list_triv)
  next
    case False
    then have "i < n" using Suc.prems by simp
    then show ?thesis using Suc.IH False by (cases n) (simp_all add: algebra_simps)
  qed
qed

lemma construct_uniform_entries:
  assumes n: "2 \<le> n"
  shows "\<exists>a. construct_uniform_trans_prob p n = Inr a \<and> wf2 (nat n) (nat n) a \<and>
           (\<forall>i<nat n. \<forall>j<nat n. at2 a i j =
              (if j = i then p else (1 - p) / real_of_int (n - 1)))"
proof -
  define N where "N = nat n"
  define s where "s = (1 - p) / real_of_int (n - 1)"
  define z where "z = NDArray [N, N] (replicate (N * N) s)"
  have fz: "np_full n n s = Inr z" using n by (simp add: np_full_def z_def N_def)
  have wz: "wf2 N N z" by (simp add: wf2_def z_def)
  have z0: "\<forall>i<N. \<forall>j<N. at2 z i j = s"
    using at2_np_full [OF fz] by (simp add: N_def)
  define a where "a = fold (\<lambda>i b. set2 b i i p) [0..<N] z"
  have fa: "wf2 N N a \<and> (\<forall>i'. \<forall>j'<N. at2 a i' j' = (if i' < N \<and> j' = i' then p else at2 z i' j'))"
    unfolding a_def by (rule fold_set2 [OF wz]) simp_all
  have res: "construct_uniform_trans_prob p n = Inr a"
    using n fz by (simp add: construct_uniform_trans_prob_def s_def a_def N_def)
  show ?thesis using res fa z0 by (auto simp: N_def s_def)
qed


lemma row_entries:
  assumes "wf2 r c a" "\<forall>j<c. at2 a i j = f j"
  shows "row a i = map f [0..<c]"
  using assms wf2_dims [OF assms(1)] by (simp add: row_def)

section \<open>The named transition matrices\<close>

text \<open>
  C5. For \<open>n \<ge> 2\<close> states, the spec \<^verbatim>\<open>"uniform"\<close> builds an \<open>n \<times> n\<close> matrix whose
  diagonal entries are the stay probability \<open>p\<close> and whose other entries are
  \<open>(1 - p) / (n - 1)\<close>, so that every row sums to one; without a stay probability,
  \<open>p\<close> is \<open>1 / n\<close>.
\<close>

theorem uniform_trans_prob:
  assumes "2 \<le> n" "seed_ok seed"
  shows "\<exists>h. HMM_init np amb (StrArg ''uniform'') stay_prob (Some n) seed = Inr h \<and>
           shape (trans_prob h) = [nat n, nat n] \<and> n_states h = nat n \<and>
           (let p = (case stay_prob of Some p \<Rightarrow> p | None \<Rightarrow> 1 / real_of_int n) in
              (\<forall>i<nat n. \<forall>j<nat n. at2 (trans_prob h) i j =
                  (if j = i then p else (1 - p) / real_of_int (n - 1))) \<and>
              (\<forall>i<nat n. sum_list (row (trans_prob h) i) = 1))"
proof -
  define p where "p = (case stay_prob of Some p \<Rightarrow> p | None \<Rightarrow> 1 / real_of_int n)"
  obtain a where a: "construct_uniform_trans_prob p n = Inr a" "wf2 (nat n) (nat n) a"
    "\<forall>i<nat n. \<forall>j<nat n. at2 a i j = (if j = i then p else (1 - p) / real_of_int (n - 1))"
    using construct_uniform_entries [OF assms(1), of p] by blast
  obtain g where g: "default_rng np amb seed = Inr g"
    using default_rng_ok [OF assms(2), of np amb] by blast
  have tp: "init_trans_prob np amb (StrArg ''uniform'') stay_prob (Some n) = Inr (Some a)"
    using assms(1) a(1) by (cases stay_prob) (simp_all add: init_trans_prob_def p_def)
  have h: "HMM_init np amb (StrArg ''uniform'') stay_prob (Some n) seed =
             Inr \<lparr>trans_prob = a, n_states = nrows a, rng = g\<rparr>"
    by (simp add: HMM_init_def tp g)
  have sums: "sum_list (row a i) = 1" if i: "i < nat n" for i
  proof -
    have "row a i = map (\<lambda>j. if j = i then p else (1 - p) / real_of_int (n - 1)) [0..<nat n]"
      using a(3) i by (intro row_entries [OF a(2)]) simp
    then have "sum_list (row a i) = p + real (nat n - 1) * ((1 - p) / real_of_int (n - 1))"
      using i by (simp add: sum_list_delta)
    also have "real (nat n - 1) = real_of_int (n - 1)"
      using assms(1) by (simp add: of_nat_diff)
    finally show ?thesis using assms(1) by simp
  qed
  show ?thesis
    unfolding h p_def [symmetric] Let_def
    using a(2,3) sums wf2_dims [OF a(2)] by (simp add: wf2_def)
qed

theorem uniform_trans_prob_witness:
  "\<exists>h. HMM_init lcg_numpy zero_ambient (StrArg ''uniform'') (Some (9 / 10)) (Some 3) (Some 0) = Inr h \<and>
       n_states h = 3 \<and> row (trans_prob h) 0 = [9 / 10, 1 / 20, 1 / 20] \<and>
       at2 (trans_prob h) 1 1 = 9 / 10 \<and> at2 (trans_prob h) 2 0 = 1 / 20 \<and>
       sum_list (row (trans_prob h) 2) = 1"
proof -
  have n: "(2::int) \<le> 3" by simp
  have s: "seed_ok (Some 0)" by (simp add: seed_ok_def)
  obtain h where h:
    "HMM_init lcg_numpy zero_ambient (StrArg ''uniform'') (Some (9 / 10)) (Some 3) (Some 0) = Inr h"
    "shape (trans_prob h) = [3, 3]" "n_states h = 3"
    "\<forall>i<3. \<forall>j<3. at2 (trans_prob h) i j = (if j = i then 9 / 10 else 1 / 20)"
    "\<forall>i<3. sum_list (row (trans_prob h) i) = 1"
    using uniform_trans_prob [OF n s, of lcg_numpy zero_ambient "Some (9 / 10)"]
    by (auto simp: Let_def)
  have c: "ncols (trans_prob h) = 3" using h(2) by (simp add: ncols_def)
  have r: "row (trans_prob h) 0 = [9 / 10, 1 / 20, 1 / 20]"
    using h(4) by (simp add: row_def c upt_conv_Cons)
  show ?thesis using h r by auto
qed

text \<open>
  C6. For \<open>n \<ge> 2\<close> states and stay probability \<open>p\<close>, the spec \<^verbatim>\<open>"sequence"\<close> builds
  an \<open>n \<times> n\<close> matrix with \<open>p\<close> on the diagonal, \<open>1 - p\<close> at \<open>(i, (i + 1) mod n)\<close> for
  every row \<open>i\<close>, the entry \<open>(n - 1, 0)\<close> of the last row included, and zero everywhere
  else.
\<close>

theorem sequence_trans_prob:
  assumes "2 \<le> n" "seed_ok seed"
  shows "\<exists>h. HMM_init np amb (StrArg ''sequence'') (Some p) (Some n) seed = Inr h \<and>
           shape (trans_prob h) = [nat n, nat n] \<and> n_states h = nat n \<and>
           (\<forall>i<nat n. \<forall>j<nat n. at2 (trans_prob h) i j =
               (if j = i then p else if j = (i + 1) mod nat n then 1 - p else 0)) \<and>
           at2 (trans_prob h) (nat n - 1) 0 = 1 - p"
proof -
  obtain a where a: "construct_sequence_trans_prob p n = Inr a" "wf2 (nat n) (nat n) a"
    "\<forall>i<nat n. \<forall>j<nat n. at2 a i j =
        (if j = i then p else if j = Suc i mod nat n then 1 - p else 0)"
    using construct_sequence_entries [OF assms(1), of p] by blast
  obtain g where g: "default_rng np amb seed = Inr g"
    using default_rng_ok [OF assms(2), of np amb] by blast
  have tp: "init_trans_prob np amb (StrArg ''sequence'') (Some p) (Some n) = Inr (Some a)"
    using assms(1) a(1) by (simp add: init_trans_prob_def)
  have h: "HMM_init np amb (StrArg ''sequence'') (Some p) (Some n) seed =
             Inr \<lparr>trans_prob = a, n_states = nrows a, rng = g\<rparr>"
    by (simp add: HMM_init_def tp g)
  have N: "2 \<le> nat n" using assms(1) by simp
  have wrap: "at2 a (nat n - 1) 0 = 1 - p"
  proof -
    have "at2 a (nat n - 1) 0 =
            (if 0 = nat n - 1 then p else if 0 = Suc (nat n - 1) mod nat n then 1 - p else 0)"
      using a(3) N by simp
    then show ?thesis using N by simp
  qed
  show ?thesis
    unfolding h using a(2,3) wrap wf2_dims [OF a(2)] by (simp add: wf2_def)
qed

theorem sequence_trans_prob_witness:
  "\<exists>h. HMM_init lcg_numpy zero_ambient (StrArg ''sequence'') (Some (3 / 4)) (Some 3) None = Inr h \<and>
       n_states h = 3 \<and>
       row (trans_prob h) 0 = [3 / 4, 1 / 4, 0] \<and>
       row (trans_prob h) 1 = [0, 3 / 4, 1 / 4] \<and>
       row (trans_prob h) 2 = [1 / 4, 0, 3 / 4]"
proof -
  have n: "(2::int) \<le> 3" by simp
  have s: "seed_ok None" by (simp add: seed_ok_def)
  obtain h where h:
    "HMM_init lcg_numpy zero_ambient (StrArg ''sequence'') (Some (3 / 4)) (Some 3) None = Inr h"
    "shape (trans_prob h) = [3, 3]" "n_states h = 3"
    "\<forall>i<3. \<forall>j<3. at2 (trans_prob h) i j =
        (if j = i then 3 / 4 else if j = (i + 1) mod 3 then 1 - 3 / 4 else 0)"
    using sequence_trans_prob [OF n s, of lcg_numpy zero_ambient "3 / 4"]
    by auto
  have c: "ncols (trans_prob h) = 3" using h(2) by (simp add: ncols_def)
  have r: "row (trans_prob h) 0 = [3 / 4, 1 / 4, 0]" "row (trans_prob h) 1 = [0, 3 / 4, 1 / 4]"
    "row (trans_prob h) 2 = [1 / 4, 0, 3 / 4]"
    using h(4) by (simp_all add: row_def c upt_conv_Cons)
  show ?thesis using h r by auto
qed

section \<open>A single state\<close>

lemma np_ones_1_1: "np_full 1 1 1 = Inr (NDArray [1, 1] [1])"
  by (simp add: np_full_def)

text \<open>
  C3, as amended. With \<^verbatim>\<open>n_states == 1\<close> and a seed numpy accepts, the specs
  \<^verbatim>\<open>"sequence"\<close> and \<^verbatim>\<open>"uniform"\<close> and the spec None build the matrix \<open>[[1]]\<close>,
  whatever the stay probability. Every other string is refused with a ValueError before
  the number of states is looked at, and an explicit matrix is checked and kept as it is
  for any other number of states.
\<close>

theorem one_state_named_spec:
  assumes "seed_ok seed"
  shows "(arg = StrArg ''sequence'' \<or> arg = StrArg ''uniform'' \<or> arg = NoneArg \<longrightarrow>
            (\<exists>h. HMM_init np amb arg stay_prob (Some 1) seed = Inr h \<and>
                 trans_prob h = NDArray [1, 1] [1] \<and> n_states h = 1)) \<and>
         (s \<noteq> ''sequence'' \<and> s \<noteq> ''uniform'' \<longrightarrow>
            HMM_init np amb (StrArg s) stay_prob (Some 1) seed = Inl ValueError) \<and>
         HMM_init np amb (ArrayArg M) stay_prob (Some 1) seed =
           HMM_init np amb (ArrayArg M) stay_prob n_states_arg seed"
proof -
  obtain g where g: "default_rng np amb seed = Inr g"
    using default_rng_ok [OF assms(1), of np amb] by blast
  have tp: "init_trans_prob np amb arg stay_prob (Some 1) = Inr (Some (NDArray [1, 1] [1]))"
    if "arg = StrArg ''sequence'' \<or> arg = StrArg ''uniform'' \<or> arg = NoneArg"
    using that by (auto simp: init_trans_prob_def np_ones_1_1)
  have one: "\<exists>h. HMM_init np amb arg stay_prob (Some 1) seed = Inr h \<and>
                 trans_prob h = NDArray [1, 1] [1] \<and> n_states h = 1"
    if "arg = StrArg ''sequence'' \<or> arg = StrArg ''uniform'' \<or> arg = NoneArg"
    by (simp add: HMM_init_def tp [OF that] g nrows_def)
  have other: "HMM_init np amb (StrArg s) stay_prob (Some 1) seed = Inl ValueError"
    if "s \<noteq> ''sequence'' \<and> s \<noteq> ''uniform''"
    using that by (simp add: HMM_init_def init_trans_prob_def)
  have arr: "HMM_init np amb (ArrayArg M) stay_prob (Some 1) seed =
               HMM_init np amb (ArrayArg M) stay_prob n_states_arg seed"
    by (simp add: HMM_init_def init_trans_prob_def)
  show ?thesis using one other arr by blast
qed

theorem one_state_named_spec_witness:
  "\<exists>h. HMM_init lcg_numpy zero_ambient (StrArg ''sequence'') None (Some 1) (Some 7) = Inr h \<and>
       trans_prob h = NDArray [1, 1] [1] \<and> n_states h = 1"
proof -
  have s: "seed_ok (Some 7)" by (simp add: seed_ok_def)
  show ?thesis
    using one_state_named_spec [OF s, of "StrArg ''sequence''" lcg_numpy zero_ambient None]
    by simp
qed

theorem one_state_counterexample:
  "HMM_init lcg_numpy zero_ambient (ArrayArg (NDArray [2, 2] [1, 0, 0, 1])) None (Some 1) None =
     Inr \<lparr>trans_prob = NDArray [2, 2] [1, 0, 0, 1], n_states = 2, rng = 0\<rparr> \<and>
   HMM_init lcg_numpy zero_ambient (StrArg ''cyclic'') None (Some 1) None = Inl ValueError"
  by code_simp

section \<open>An explicit matrix\<close>

lemma not_exceeds_tol: "s = NaN \<or> within_tol s \<Longrightarrow> \<not> exceeds_tol s"
  by (cases s) auto

lemma check_array_finite_sums:
  assumes "ndim M = 2" "nrows M = ncols M"
    "list_all is_Fin (sum_axis1 np M)" "list_all is_Fin (sum_axis0 np M)"
  shows "check_array np M =
     (if list_all within_tol (sum_axis1 np M) then Inr (M, [])
      else if list_all below_tol (sum_axis0 np M)
      then Inr (ndarray_T M, [''Rows of trans_prob matrix must sum to 1. Transpose taken.''])
      else Inl ValueError)"
proof -
  have "list_ex exceeds_tol ds = (\<not> list_all within_tol ds)" if "list_all is_Fin ds" for ds
    using that
  proof (induction ds)
    case Nil
    then show ?case by simp
  next
    case (Cons d ds)
    then show ?case by (cases d) auto
  qed
  then show ?thesis using assms by (simp add: check_array_def)
qed

text \<open>
  C4. The constructor is to refuse a matrix of which neither the rows nor the columns sum
  to one within the tolerance. A row sum that is NaN passes its test, every comparison
  with a NaN being false: when the row sums that are not NaN are within the tolerance of
  one, and a row sum and a column sum are NaN, then neither the rows nor the columns sum
  to one within the tolerance, and yet the matrix is stored, with no error and no warning.
\<close>

theorem nan_sums_are_stored:
  assumes "ndim M = 2" "nrows M = ncols M" "seed_ok seed"
    and "list_all (\<lambda>s. s = NaN \<or> within_tol s) (sum_axis1 np M)"
    and "NaN \<in> set (sum_axis1 np M)" "NaN \<in> set (sum_axis0 np M)"
  shows "\<not> list_all within_tol (sum_axis1 np M) \<and> \<not> list_all within_tol (sum_axis0 np M) \<and>
         check_array np M = Inr (M, []) \<and>
         (\<exists>h. HMM_init np amb (ArrayArg M) stay_prob n_states_arg seed = Inr h \<and>
              trans_prob h = M)"
proof -
  obtain g where g: "default_rng np amb seed = Inr g"
    using default_rng_ok [OF assms(3), of np amb] by blast
  have nan: "\<not> list_all within_tol ds" if "NaN \<in> set ds" for ds
    using that by (auto simp: list_all_iff intro!: bexI [of _ NaN])
  have "\<not> list_ex exceeds_tol (sum_axis1 np M)"
    using assms(4) not_exceeds_tol by (auto simp: list_all_iff list_ex_iff)
  then have c: "check_array np M = Inr (M, [])"
    using assms(1,2) by (simp add: check_array_def)
  have "HMM_init np amb (ArrayArg M) stay_prob n_states_arg seed =
          Inr \<lparr>trans_prob = M, n_states = nrows M, rng = g\<rparr>"
    by (simp add: HMM_init_def init_trans_prob_def c g)
  then show ?thesis using nan [OF assms(5)] nan [OF assms(6)] c by simp
qed

theorem nan_sums_are_stored_witness:
  "sum_axis1 lcg_numpy (NonFinite [2, 2] [NaN, Fin 0, Fin 0, Fin 1]) = [NaN, Fin 1] \<and>
   sum_axis0 lcg_numpy (NonFinite [2, 2] [NaN, Fin 0, Fin 0, Fin 1]) = [NaN, Fin 1] \<and>
   (\<exists>h. HMM_init lcg_numpy zero_ambient (ArrayArg (NonFinite [2, 2] [NaN, Fin 0, Fin 0, Fin 1]))
           None None None = Inr h \<and>
        trans_prob h = NonFinite [2, 2] [NaN, Fin 0, Fin 0, Fin 1])"
proof -
  let ?M = "NonFinite [2, 2] [NaN, Fin 0, Fin 0, Fin 1]"
  have d: "ndim ?M = 2" "nrows ?M = ncols ?M" by (simp_all add: ndim_def nrows_def ncols_def)
  have s: "seed_ok None" by (simp add: seed_ok_def)
  have r: "sum_axis1 lcg_numpy ?M = [NaN, Fin 1]" "sum_axis0 lcg_numpy ?M = [NaN, Fin 1]"
    by (simp_all add: sum_axis1_def sum_axis0_def entries_row_def entries_column_def entry_def
        nrows_def ncols_def lcg_numpy_def exact_sum_def upt_conv_Cons)
  have a: "list_all (\<lambda>s. s = NaN \<or> within_tol s) (sum_axis1 lcg_numpy ?M)"
    "NaN \<in> set (sum_axis1 lcg_numpy ?M)" "NaN \<in> set (sum_axis0 lcg_numpy ?M)"
    by (simp_all add: r tol_def)
  show ?thesis
    using nan_sums_are_stored [OF d s a, of zero_ambient None None] r by simp
qed

section \<open>A Python list\<close>

text \<open>
  C10. A Python list \<open>L\<close> is handed to \<^verbatim>\<open>np.ndarray\<close> as a shape. A nested list has
  an element that is a list and not an integer, so the call raises a TypeError and the
  constructor stores no matrix: this holds for every list with an element that is not an
  integer, the nested lists that spell out a row-stochastic matrix included.
\<close>

theorem nested_list_refused:
  assumes "\<not> list_all is_PyInt L"
  shows "HMM_init np amb (ListArg L) stay_prob n_states_arg seed = Inl TypeError"
  using assms by (simp add: HMM_init_def init_trans_prob_def np_ndarray_def)

theorem nested_list_refused_witness:
  "HMM_init lcg_numpy zero_ambient
     (ListArg [PyList [PyFloat (9 / 10), PyFloat (1 / 10)],
               PyList [PyFloat (1 / 10), PyFloat (9 / 10)]]) None None (Some 0) = Inl TypeError"
proof -
  have "\<not> list_all is_PyInt [PyList [PyFloat (9 / 10), PyFloat (1 / 10)],
                               PyList [PyFloat (1 / 10), PyFloat (9 / 10)]]"
    by simp
  then show ?thesis by (rule nested_list_refused)
qed

section \<open>The sampling loop\<close>

lemma loop_inv_init:
  "0 < n \<Longrightarrow> 0 < length streams \<Longrightarrow> loop_inv streams n 1 streams (replicate n 0)"
  by (simp add: loop_inv_def)

lemma loop_inv_step:
  assumes ok: "streams_ok streams n" and inv: "loop_inv streams n k rands states" and k: "k < n"
  defines "s \<equiv> states ! (k - 1)"
  defines "c \<equiv> count_list (take (k - 1) states) s"
  shows "s < length rands \<and> rands ! s = (streams ! s ! c) # drop (Suc c) (streams ! s) \<and>
         loop_inv streams n (Suc k) (rands[s := drop (Suc c) (streams ! s)])
           (states[k := streams ! s ! c])"
proof -
  have len: "length states = n" "1 \<le> k" "length rands = length streams"
    using inv by (simp_all add: loop_inv_def)
  have s: "s < length streams" using inv len(2) by (simp add: loop_inv_def s_def)
  have "c \<le> length (take (k - 1) states)" unfolding c_def by (rule count_le_length)
  then have c: "c < length (streams ! s)" using ok s k len by (simp add: streams_ok_def)
  have r: "rands ! s = (streams ! s ! c) # drop (Suc c) (streams ! s)"
    using inv s c by (simp add: loop_inv_def c_def Cons_nth_drop_Suc)
  define x where "x = streams ! s ! c"
  define states' where "states' = states[k := x]"
  have x: "x < length streams"
    using ok s c by (simp add: streams_ok_def x_def)
  have same: "states' ! t = states ! t" if "t < k" for t
    using that by (simp add: states'_def)
  have tk: "take k states' = take (k - 1) states @ [s]"
  proof -
    have "take k states' = take k states" by (simp add: states'_def)
    also have "\<dots> = take (Suc (k - 1)) states" using len(2) by simp
    also have "\<dots> = take (k - 1) states @ [states ! (k - 1)]"
      using len k by (intro take_Suc_conv_app_nth) simp
    finally show ?thesis by (simp add: s_def)
  qed
  have tt: "take t states' = take t states" if "t \<le> k" for t
    using that by (simp add: states'_def)
  have rands': "(rands[s := drop (Suc c) (streams ! s)]) ! s' =
                  drop (count_list (take k states') s') (streams ! s')"
    if "s' < length streams" for s'
  proof (cases "s' = s")
    case True
    then show ?thesis using s len by (simp add: tk c_def)
  next
    case False
    then show ?thesis using inv that by (simp add: tk loop_inv_def)
  qed
  have bound: "states' ! t < length streams" if "t < Suc k" for t
  proof (cases "t = k")
    case True
    then show ?thesis using x len k by (simp add: states'_def)
  next
    case False
    then have "t < k" using that by simp
    then show ?thesis using inv by (simp add: same loop_inv_def)
  qed
  have zero: "states' ! 0 = 0" using inv len by (simp add: same loop_inv_def)
  have trans: "states' ! t =
      streams ! (states' ! (t - 1)) ! count_list (take (t - 1) states') (states' ! (t - 1))"
    if t: "1 \<le> t" "t < Suc k" for t
  proof (cases "t = k")
    case True
    have "states' ! k = x" using len k by (simp add: states'_def)
    moreover have "states' ! (k - 1) = s" using len by (simp add: same s_def)
    moreover have "take (k - 1) states' = take (k - 1) states" by (simp add: tt)
    ultimately show ?thesis using True by (simp add: x_def c_def)
  next
    case False
    then have tk': "t < k" using t by simp
    then have "states' ! t = states ! t" "states' ! (t - 1) = states ! (t - 1)"
      "take (t - 1) states' = take (t - 1) states"
      by (simp_all add: same tt)
    then show ?thesis using inv t(1) tk' by (simp add: loop_inv_def)
  qed
  have len': "length states' = n" using len by (simp add: states'_def)
  have "loop_inv streams n (Suc k) (rands[s := drop (Suc c) (streams ! s)]) states'"
    unfolding loop_inv_def
    using len' len(2,3) k rands' bound zero trans by simp
  then show ?thesis using s len r by (simp add: states'_def x_def)
qed

lemma states_loop_inv:
  assumes ok: "streams_ok streams n"
  shows "loop_inv streams n k rands states \<Longrightarrow>
         \<exists>states' rands'. states_loop [k..<n] rands states = Inr (states', rands') \<and>
                          loop_inv streams n n rands' states'"
proof (induction "n - k" arbitrary: k rands states)
  case 0
  then have "k = n" by (simp add: loop_inv_def)
  then show ?case using 0 by simp
next
  case (Suc d)
  then have k: "k < n" by simp
  define s where "s = states ! (k - 1)"
  define c where "c = count_list (take (k - 1) states) s"
  have step: "s < length rands" "rands ! s = (streams ! s ! c) # drop (Suc c) (streams ! s)"
    "loop_inv streams n (Suc k) (rands[s := drop (Suc c) (streams ! s)])
       (states[k := streams ! s ! c])"
    using loop_inv_step [OF ok Suc.prems k] by (simp_all add: s_def c_def)
  have d: "d = n - Suc k" using Suc.hyps(2) by simp
  have s': "states ! (k - Suc 0) = s" by (simp add: s_def)
  have unfold: "states_loop [k..<n] rands states =
      states_loop [Suc k..<n] (rands[s := drop (Suc c) (streams ! s)])
        (states[k := streams ! s ! c])"
    using k step(1,2) by (simp add: upt_conv_Cons s' Let_def)
  show ?case
    unfolding unfold by (rule Suc.hyps(1) [OF d step(3)])
qed


lemma choice_row_finite:
  "flat tp \<noteq> [] \<Longrightarrow> choice_row np g n sz tp i = rng_choice np g n sz (row tp i)"
  by (cases tp) (simp_all add: choice_row_def)

lemma draw_streams_ok:
  assumes ch: "choice_ok np" and n: "0 < n" and fl: "flat tp \<noteq> []"
  shows "(\<forall>i\<in>set idx. i < nrows tp \<and> length (row tp i) = n \<and> (\<forall>x\<in>set (row tp i). 0 \<le> x) \<and>
                    \<bar>sum_list (row tp i) - 1\<bar> \<le> 1 / 10 ^ 8) \<Longrightarrow>
         \<exists>rands g'. draw_streams np tp n sz idx g = Inr (rands, g') \<and>
            length rands = length idx \<and>
            (\<forall>j<length idx. length (rands ! j) = sz \<and> (\<forall>x\<in>set (rands ! j). x < n) \<and>
               (\<exists>g0 g1. rng_choice np g0 n sz (row tp (idx ! j)) = Inr (rands ! j, g1)))"
proof (induction idx arbitrary: g)
  case Nil
  then show ?case by simp
next
  case (Cons i idx)
  obtain xs g1 where c: "rng_choice np g n sz (row tp i) = Inr (xs, g1)" "length xs = sz"
    "\<forall>x\<in>set xs. x < n"
    using ch n Cons.prems unfolding choice_ok_def by (metis list.set_intros(1))
  obtain rands g2 where r: "draw_streams np tp n sz idx g1 = Inr (rands, g2)"
    "length rands = length idx"
    "\<forall>j<length idx. length (rands ! j) = sz \<and> (\<forall>x\<in>set (rands ! j). x < n) \<and>
       (\<exists>g0 g1. rng_choice np g0 n sz (row tp (idx ! j)) = Inr (rands ! j, g1))"
    using Cons.IH [of g1] Cons.prems by auto
  have i: "i < nrows tp" using Cons.prems by simp
  have res: "draw_streams np tp n sz (i # idx) g = Inr (xs # rands, g2)"
    using i by (simp add: choice_row_finite [OF fl] c(1) r(1))
  have each: "length ((xs # rands) ! j) = sz \<and> (\<forall>x\<in>set ((xs # rands) ! j). x < n) \<and>
       (\<exists>g0 g1. rng_choice np g0 n sz (row tp ((i # idx) ! j)) = Inr ((xs # rands) ! j, g1))"
    if "j < length (i # idx)" for j
  proof (cases j)
    case 0
    then show ?thesis using c by auto
  next
    case (Suc j')
    then show ?thesis using r(3) that by simp
  qed
  show ?case using res r(2) each by auto
qed

lemma unit_row_nth: "j < n \<Longrightarrow> unit_row n k ! j = (if j = k then 1 else 0)"
  by (simp add: unit_row_def)

lemma length_unit_row: "length (unit_row n k) = n"
  by (simp add: unit_row_def)

lemma get_one_hot_ok:
  assumes "\<forall>v\<in>set values. v < n"
  shows "get_one_hot values (Some n) = Inr (map (unit_row n) values)"
proof -
  have "\<not> list_ex (\<lambda>v. n \<le> v) values" using assms by (auto simp: list_ex_iff)
  moreover have "map (\<lambda>v. eye n ! v) values = map (unit_row n) values"
    using assms by (intro map_cong) (simp_all add: eye_def)
  ultimately show ?thesis by (simp add: get_one_hot_def)
qed

lemma valid_hmm_rows:
  assumes "valid_hmm h" "i < n_states h"
  shows "i < nrows (trans_prob h) \<and> length (row (trans_prob h) i) = n_states h \<and>
         (\<forall>x\<in>set (row (trans_prob h) i). 0 \<le> x) \<and>
         \<bar>sum_list (row (trans_prob h) i) - 1\<bar> \<le> 1 / 10 ^ 8"
proof -
  have w: "wf2 (n_states h) (n_states h) (trans_prob h)" using assms(1) by (simp add: valid_hmm_def)
  have "\<bar>sum_list (row (trans_prob h) i) - 1\<bar> \<le> tol" using assms by (simp add: valid_hmm_def)
  moreover have "tol \<le> 1 / 10 ^ 8" by (simp add: tol_def)
  ultimately have "\<bar>sum_list (row (trans_prob h) i) - 1\<bar> \<le> 1 / 10 ^ 8" by linarith
  then show ?thesis
    using assms wf2_dims [OF w] by (simp add: valid_hmm_def row_def)
qed

lemma generate_states_run:
  assumes "choice_ok np" "valid_hmm h" "1 \<le> n"
  shows "\<exists>rands g states rest.
     draw_streams np (trans_prob h) (n_states h) n [0..<n_states h] (rng h) = Inr (rands, g) \<and>
     length rands = n_states h \<and> streams_ok rands n \<and>
     (\<forall>i<n_states h. \<exists>g0 g1.
        rng_choice np g0 (n_states h) n (row (trans_prob h) i) = Inr (rands ! i, g1)) \<and>
     states_loop [1..<n] rands (replicate n 0) = Inr (states, rest) \<and>
     loop_inv rands n n rest states \<and>
     generate_states np h n = Inr (map (unit_row (n_states h)) states, h\<lparr>rng := g\<rparr>)"
proof -
  let ?N = "n_states h"
  have N: "0 < ?N" using assms(2) by (simp add: valid_hmm_def)
  have "length (flat (trans_prob h)) = ?N * ?N"
    using assms(2) by (simp add: valid_hmm_def wf2_def)
  then have fl: "flat (trans_prob h) \<noteq> []" using N by auto
  have rows: "\<forall>i\<in>set [0..<?N]. i < nrows (trans_prob h) \<and> length (row (trans_prob h) i) = ?N \<and>
      (\<forall>x\<in>set (row (trans_prob h) i). 0 \<le> x) \<and> \<bar>sum_list (row (trans_prob h) i) - 1\<bar> \<le> 1 / 10 ^ 8"
    using valid_hmm_rows [OF assms(2)] by simp
  obtain rands g where d:
    "draw_streams np (trans_prob h) ?N n [0..<?N] (rng h) = Inr (rands, g)"
    "length rands = length [0..<?N]"
    "\<forall>j<length [0..<?N]. length (rands ! j) = n \<and> (\<forall>x\<in>set (rands ! j). x < ?N) \<and>
       (\<exists>g0 g1. rng_choice np g0 ?N n (row (trans_prob h) ([0..<?N] ! j)) = Inr (rands ! j, g1))"
    using draw_streams_ok [OF assms(1) N fl rows, of n "rng h"] by blast
  have len: "length rands = ?N" using d(2) by simp
  have ok: "streams_ok rands n" using d(3) len by (simp add: streams_ok_def)
  have ch: "\<forall>i<?N. \<exists>g0 g1. rng_choice np g0 ?N n (row (trans_prob h) i) = Inr (rands ! i, g1)"
    using d(3) by simp
  have init: "loop_inv rands n 1 rands (replicate n 0)"
    using assms(3) N len by (intro loop_inv_init) simp_all
  obtain states rest where l: "states_loop [1..<n] rands (replicate n 0) = Inr (states, rest)"
    "loop_inv rands n n rest states"
    using states_loop_inv [OF ok init] by blast
  have "\<forall>v\<in>set states. v < ?N"
    using l(2) len by (auto simp: loop_inv_def in_set_conv_nth)
  then have oh: "get_one_hot states (Some ?N) = Inr (map (unit_row ?N) states)"
    by (rule get_one_hot_ok)
  have "generate_states np h n = Inr (map (unit_row ?N) states, h\<lparr>rng := g\<rparr>)"
    using d(1) l(1) oh by (simp add: generate_states_def)
  then show ?thesis using d(1) len ok ch l by blast
qed

text \<open>
  C1. For a valid chain and \<open>n_samples \<ge> 1\<close>, \<^verbatim>\<open>generate_states\<close> returns
  \<open>n_samples\<close> rows of \<open>n_states\<close> columns, row \<open>t\<close> being the unit vector of the
  label \<open>states ! t\<close> (one at that column, zero elsewhere, whether or not every label is
  visited). The label of sample 0 is 0, and the label of every later sample \<open>t\<close> is the
  next value not yet consumed of the stream of the label of sample \<open>t - 1\<close>: its index
  in that stream is the number of earlier samples that drew from it. Stream \<open>i\<close> is the
  result of \<^verbatim>\<open>choice\<close> on row \<open>i\<close> of the transition matrix.
\<close>

theorem generate_states_markov:
  assumes "choice_ok np" "valid_hmm h" "1 \<le> n_samples"
  shows "\<exists>rands g states one_hot.
     draw_streams np (trans_prob h) (n_states h) n_samples [0..<n_states h] (rng h) = Inr (rands, g) \<and>
     (\<forall>i<n_states h. \<exists>g0 g1.
        rng_choice np g0 (n_states h) n_samples (row (trans_prob h) i) = Inr (rands ! i, g1)) \<and>
     generate_states np h n_samples = Inr (one_hot, h\<lparr>rng := g\<rparr>) \<and>
     length one_hot = n_samples \<and> length states = n_samples \<and>
     (\<forall>t<n_samples. length (one_hot ! t) = n_states h \<and> states ! t < n_states h \<and>
        (\<forall>j<n_states h. one_hot ! t ! j = (if j = states ! t then 1 else 0))) \<and>
     states ! 0 = 0 \<and>
     (\<forall>t. 1 \<le> t \<and> t < n_samples \<longrightarrow>
        states ! t =
          rands ! (states ! (t - 1)) ! count_list (take (t - 1) states) (states ! (t - 1)))"
proof -
  obtain rands g states rest where r:
    "draw_streams np (trans_prob h) (n_states h) n_samples [0..<n_states h] (rng h) = Inr (rands, g)"
    "length rands = n_states h"
    "\<forall>i<n_states h. \<exists>g0 g1.
        rng_choice np g0 (n_states h) n_samples (row (trans_prob h) i) = Inr (rands ! i, g1)"
    "loop_inv rands n_samples n_samples rest states"
    "generate_states np h n_samples = Inr (map (unit_row (n_states h)) states, h\<lparr>rng := g\<rparr>)"
    using generate_states_run [OF assms] by blast
  let ?oh = "map (unit_row (n_states h)) states"
  have len: "length states = n_samples" using r(4) by (simp add: loop_inv_def)
  have rows: "length (?oh ! t) = n_states h \<and> states ! t < n_states h \<and>
        (\<forall>j<n_states h. ?oh ! t ! j = (if j = states ! t then 1 else 0))"
    if "t < n_samples" for t
    using that len r(2,4) by (simp add: loop_inv_def length_unit_row unit_row_nth)
  have zero: "states ! 0 = 0" using r(4) by (simp add: loop_inv_def)
  have step: "\<forall>t. 1 \<le> t \<and> t < n_samples \<longrightarrow>
        states ! t =
          rands ! (states ! (t - 1)) ! count_list (take (t - 1) states) (states ! (t - 1))"
    using r(4) by (simp add: loop_inv_def)
  show ?thesis
    using r(1,3,5) len rows zero step by (intro exI [of _ rands] exI [of _ g] exI [of _ states]
        exI [of _ ?oh]) simp
qed


lemma choice_ok_lcg: "choice_ok lcg_numpy"
proof -
  have neg: "\<not> list_ex (\<lambda>x. x < 0) p" if "\<forall>x\<in>set p. 0 \<le> x" for p :: "real list"
    using that by (induction p) auto
  show ?thesis
    unfolding choice_ok_def lcg_numpy_def by (simp add: neg)
qed

lemma valid_uniform3: "valid_hmm uniform3"
proof -
  have r: "row (trans_prob uniform3) 0 = [9 / 10, 1 / 20, 1 / 20]"
    "row (trans_prob uniform3) 1 = [1 / 20, 9 / 10, 1 / 20]"
    "row (trans_prob uniform3) 2 = [1 / 20, 1 / 20, 9 / 10]"
    by (simp_all add: uniform3_def row_def at2_def ncols_def upt_conv_Cons)
  have "(\<forall>x\<in>set (row (trans_prob uniform3) i). 0 \<le> x) \<and>
       \<bar>sum_list (row (trans_prob uniform3) i) - 1\<bar> \<le> tol" if "i < 3" for i
  proof -
    have "i = 0 \<or> i = 1 \<or> i = 2" using that by arith
    then show ?thesis using r by (elim disjE) (simp_all add: tol_def)
  qed
  then show ?thesis by (simp add: valid_hmm_def wf2_def uniform3_def)
qed

lemma streams_uniform3:
  "draw_streams lcg_numpy (trans_prob uniform3) 3 5 [0..<3] 0 =
     Inr ([[0, 2, 1, 0, 2], [1, 0, 2, 1, 0], [2, 1, 0, 2, 1]], 15)"
  by (simp add: uniform3_def lcg_numpy_def choice_row_def row_def at2_def ncols_def nrows_def
      upt_conv_Cons)



lemma loop_uniform3:
  "states_loop [1..<5] [[0, 2, 1, 0, 2], [1, 0, 2, 1, 0], [2, 1, 0, 2, 1]] (replicate 5 0) =
     Inr ([0, 0, 2, 2, 1], [[1, 0, 2], [1, 0, 2, 1, 0], [0, 2, 1]])"
  by code_simp

lemma one_hot_uniform3:
  "get_one_hot [0, 0, 2, 2, 1] (Some 3) =
     Inr [[1, 0, 0], [1, 0, 0], [0, 0, 1], [0, 0, 1], [0, 1, 0]]"
  by code_simp


lemma generate_uniform3:
  "generate_states lcg_numpy uniform3 5 =
     Inr ([[1, 0, 0], [1, 0, 0], [0, 0, 1], [0, 0, 1], [0, 1, 0]], uniform3\<lparr>rng := 15\<rparr>)"
proof -
  have p: "n_states uniform3 = 3" "rng uniform3 = 0" by (simp_all add: uniform3_def)
  show ?thesis
    unfolding generate_states_def p streams_uniform3 loop_uniform3 one_hot_uniform3
      sum.case prod.case by (rule refl)
qed

theorem generate_states_markov_witness:
  "choice_ok lcg_numpy \<and> valid_hmm uniform3 \<and>
   (\<exists>one_hot h'. generate_states lcg_numpy uniform3 5 = Inr (one_hot, h') \<and>
      length one_hot = 5 \<and> one_hot ! 0 ! 0 = 1 \<and> length (one_hot ! 4) = 3) \<and>
   generate_states lcg_numpy uniform3 5 =
     Inr ([[1, 0, 0], [1, 0, 0], [0, 0, 1], [0, 0, 1], [0, 1, 0]], uniform3\<lparr>rng := 15\<rparr>)"
proof -
  have n: "(1::nat) \<le> 5" by simp
  obtain rands g states one_hot where w:
    "generate_states lcg_numpy uniform3 5 = Inr (one_hot, uniform3\<lparr>rng := g\<rparr>)"
    "length one_hot = 5"
    "\<forall>t<5. length (one_hot ! t) = n_states uniform3 \<and> states ! t < n_states uniform3 \<and>
        (\<forall>j<n_states uniform3. one_hot ! t ! j = (if j = states ! t then 1 else 0))"
    "states ! 0 = 0"
    using generate_states_markov [OF choice_ok_lcg valid_uniform3 n] by blast
  have N: "n_states uniform3 = 3" by (simp add: uniform3_def)
  have "one_hot ! 0 ! 0 = 1" "length (one_hot ! 4) = 3"
    using w(3,4) by (simp_all add: N)
  then show ?thesis
    using w(1,2) choice_ok_lcg valid_uniform3 generate_uniform3 by simp
qed

lemma sum_count_below:
  assumes "\<forall>v\<in>set xs. v < (N::nat)"
  shows "(\<Sum>s<N. count_list xs s) = length xs"
  using assms by (intro sum_count_set) auto

text \<open>
  C9. For a valid chain and \<open>n_samples \<ge> 1\<close>, \<^verbatim>\<open>generate_states\<close> does not fail:
  each of the \<open>n_states\<close> streams holds \<open>n_samples\<close> values, the loop ends without
  StopIteration or IndexError having consumed \<open>n_samples - 1\<close> values over all
  streams, every label is below \<open>n_states\<close>, and the lookup of the one-hot rows
  succeeds.
\<close>

theorem generate_states_never_fails:
  assumes "choice_ok np" "valid_hmm h" "1 \<le> n_samples"
  shows "\<exists>rands g states rest one_hot.
     draw_streams np (trans_prob h) (n_states h) n_samples [0..<n_states h] (rng h) = Inr (rands, g) \<and>
     length rands = n_states h \<and> (\<forall>s<n_states h. length (rands ! s) = n_samples) \<and>
     states_loop [1..<n_samples] rands (replicate n_samples 0) = Inr (states, rest) \<and>
     (\<Sum>s<n_states h. length (rands ! s) - length (rest ! s)) = n_samples - 1 \<and>
     length states = n_samples \<and> (\<forall>t<n_samples. states ! t < n_states h) \<and>
     get_one_hot states (Some (n_states h)) = Inr one_hot \<and>
     generate_states np h n_samples = Inr (one_hot, h\<lparr>rng := g\<rparr>)"
proof -
  let ?N = "n_states h"
  obtain rands g states rest where r:
    "draw_streams np (trans_prob h) ?N n_samples [0..<?N] (rng h) = Inr (rands, g)"
    "length rands = ?N" "streams_ok rands n_samples"
    "states_loop [1..<n_samples] rands (replicate n_samples 0) = Inr (states, rest)"
    "loop_inv rands n_samples n_samples rest states"
    "generate_states np h n_samples = Inr (map (unit_row ?N) states, h\<lparr>rng := g\<rparr>)"
    using generate_states_run [OF assms] by blast
  have len: "length states = n_samples" using r(5) by (simp add: loop_inv_def)
  have below: "\<forall>t<n_samples. states ! t < ?N" using r(2,5) by (simp add: loop_inv_def)
  have lens: "\<forall>s<?N. length (rands ! s) = n_samples" using r(2,3) by (simp add: streams_ok_def)
  let ?used = "take (n_samples - 1) states"
  have used: "\<forall>v\<in>set ?used. v < ?N"
    using below len by (auto simp: in_set_conv_nth)
  have "length (rands ! s) - length (rest ! s) = count_list ?used s" if "s < ?N" for s
  proof -
    have "rest ! s = drop (count_list ?used s) (rands ! s)"
      using r(2,5) that by (simp add: loop_inv_def)
    moreover have "count_list ?used s \<le> length ?used" by (rule count_le_length)
    ultimately show ?thesis using lens that len by simp
  qed
  then have "(\<Sum>s<?N. length (rands ! s) - length (rest ! s)) = (\<Sum>s<?N. count_list ?used s)"
    by simp
  also have "\<dots> = length ?used" using used by (rule sum_count_below)
  finally have total: "(\<Sum>s<?N. length (rands ! s) - length (rest ! s)) = n_samples - 1"
    using len by simp
  have "\<forall>v\<in>set states. v < ?N" using below len by (auto simp: in_set_conv_nth)
  then have oh: "get_one_hot states (Some ?N) = Inr (map (unit_row ?N) states)"
    by (rule get_one_hot_ok)
  show ?thesis using r(1,2,4,6) lens total len below oh by blast
qed

theorem generate_states_never_fails_witness:
  "\<exists>rands g states rest one_hot.
     draw_streams lcg_numpy (trans_prob uniform3) 3 5 [0..<3] 0 = Inr (rands, g) \<and>
     states_loop [1..<5] rands (replicate 5 0) = Inr (states, rest) \<and>
     (\<Sum>s<3. length (rands ! s) - length (rest ! s)) = 4 \<and>
     get_one_hot states (Some 3) = Inr one_hot \<and>
     generate_states lcg_numpy uniform3 5 = Inr (one_hot, uniform3\<lparr>rng := g\<rparr>)"
proof -
  have n: "(1::nat) \<le> 5" by simp
  have p: "n_states uniform3 = 3" "rng uniform3 = 0" by (simp_all add: uniform3_def)
  obtain rands g states rest one_hot where w:
    "draw_streams lcg_numpy (trans_prob uniform3) 3 5 [0..<3] 0 = Inr (rands, g)"
    "states_loop [1..<5] rands (replicate 5 0) = Inr (states, rest)"
    "(\<Sum>s<3. length (rands ! s) - length (rest ! s)) = 5 - 1"
    "get_one_hot states (Some 3) = Inr one_hot"
    "generate_states lcg_numpy uniform3 5 = Inr (one_hot, uniform3\<lparr>rng := g\<rparr>)"
    using generate_states_never_fails [OF choice_ok_lcg valid_uniform3 n]
    unfolding p by blast
  have t: "(\<Sum>s<3. length (rands ! s) - length (rest ! s)) = 4"
    using w(3) by simp
  show ?thesis using w(1,2,4,5) t by blast
qed

section \<open>Determinism under a fixed seed\<close>

lemma init_trans_prob_ambient:
  assumes "\<not> shape_list arg"
  shows "init_trans_prob np amb1 arg stay_prob n_states_arg =
         init_trans_prob np amb2 arg stay_prob n_states_arg"
  using assms by (cases arg) (simp_all add: init_trans_prob_def shape_list_def np_ndarray_def)

text \<open>
  C7. Two chains constructed independently from the same configuration (a matrix, a
  string or None as \<^verbatim>\<open>trans_prob\<close>, the same stay probability, number of states and
  integer seed) are the same chain, and their first calls of \<^verbatim>\<open>generate_states\<close>
  return the same result, whatever the ambient of each construction is: the operating
  system's entropy is only read when the seed is None.
\<close>

theorem seeded_chains_agree:
  assumes "\<not> shape_list arg"
  shows "HMM_init np amb1 arg stay_prob n_states_arg (Some s) =
           HMM_init np amb2 arg stay_prob n_states_arg (Some s) \<and>
         first_generate_states np amb1 arg stay_prob n_states_arg (Some s) n_samples =
           first_generate_states np amb2 arg stay_prob n_states_arg (Some s) n_samples"
proof -
  have rng: "default_rng np amb1 (Some s) = default_rng np amb2 (Some s)"
    by (simp add: default_rng_def)
  have init: "HMM_init np amb1 arg stay_prob n_states_arg (Some s) =
              HMM_init np amb2 arg stay_prob n_states_arg (Some s)"
    unfolding HMM_init_def init_trans_prob_ambient [OF assms, of np amb1 stay_prob n_states_arg amb2]
      rng by (rule refl)
  show ?thesis by (simp add: first_generate_states_def init)
qed

lemma init_uniform3:
  "HMM_init lcg_numpy amb (StrArg ''uniform'') (Some (9 / 10)) (Some 3) (Some 0) = Inr uniform3"
  by (simp add: HMM_init_def init_trans_prob_def construct_uniform_trans_prob_def np_full_def
      set2_def ncols_def nrows_def default_rng_def lcg_numpy_def uniform3_def upt_conv_Cons
      eval_nat_numeral Let_def)

theorem seeded_chains_agree_witness:
  "first_generate_states lcg_numpy zero_ambient (StrArg ''uniform'') (Some (9 / 10)) (Some 3)
       (Some 0) 5 =
     first_generate_states lcg_numpy other_ambient (StrArg ''uniform'') (Some (9 / 10)) (Some 3)
       (Some 0) 5 \<and>
   first_generate_states lcg_numpy other_ambient (StrArg ''uniform'') (Some (9 / 10)) (Some 3)
       (Some 0) 5 = Inr [[1, 0, 0], [1, 0, 0], [0, 0, 1], [0, 0, 1], [0, 1, 0]]"
proof -
  have a: "\<not> shape_list (StrArg ''uniform'')" by (simp add: shape_list_def)
  have v: "first_generate_states lcg_numpy other_ambient (StrArg ''uniform'') (Some (9 / 10))
             (Some 3) (Some 0) 5 = Inr [[1, 0, 0], [1, 0, 0], [0, 0, 1], [0, 0, 1], [0, 1, 0]]"
    by (simp add: first_generate_states_def init_uniform3 generate_uniform3)
  show ?thesis
    using seeded_chains_agree [OF a, of lcg_numpy zero_ambient "Some (9 / 10)" "Some 3" 0
        other_ambient 5] v by simp
qed

section \<open>The two chains of the multi-time-scale simulation\<close>

lemma states_loop_length:
  "states_loop idx rands states = Inr (states', rands') \<Longrightarrow> length states' = length states"
proof (induction idx rands states rule: states_loop.induct)
  case (1 rands states)
  then show ?case by simp
next
  case (2 sample rest rands states)
  let ?s = "states ! (sample - 1)"
  from "2.prems" have s: "\<not> length rands \<le> ?s"
    by (auto simp: Let_def split: if_splits)
  from "2.prems" s obtain x xs where c: "rands ! ?s = x # xs"
    by (cases "rands ! ?s") (auto simp: Let_def)
  from "2.prems" s c have
    "states_loop rest (rands[?s := xs]) (states[sample := x]) = Inr (states', rands')"
    by (simp add: Let_def)
  from "2.IH" [OF refl s c this] show ?case by simp
qed

lemma generate_states_shape:
  assumes "generate_states np h n = Inr (one_hot, h')"
  shows "length one_hot = n \<and>
         (\<forall>t<n. \<exists>k<n_states h. one_hot ! t = unit_row (n_states h) k) \<and>
         (\<forall>t<n. length (one_hot ! t) = n_states h)"
proof -
  obtain rands g where d:
    "draw_streams np (trans_prob h) (n_states h) n [0..<n_states h] (rng h) = Inr (rands, g)"
    using assms by (auto simp: generate_states_def split: sum.splits)
  obtain states rest where l: "states_loop [1..<n] rands (replicate n 0) = Inr (states, rest)"
    using assms d by (auto simp: generate_states_def split: sum.splits)
  have oh: "get_one_hot states (Some (n_states h)) = Inr one_hot"
    using assms d l by (auto simp: generate_states_def split: sum.splits)
  have len: "length states = n" using states_loop_length [OF l] by simp
  have b: "\<not> list_ex (\<lambda>v. n_states h \<le> v) states"
    using oh by (auto simp: get_one_hot_def split: if_splits)
  then have below: "\<forall>t<n. states ! t < n_states h"
    using len by (auto simp: list_ex_iff not_le)
  have rows: "one_hot = map (\<lambda>v. eye (n_states h) ! v) states"
    using oh b by (simp add: get_one_hot_def)
  have row: "one_hot ! t = unit_row (n_states h) (states ! t)" if "t < n" for t
    using that len below by (simp add: rows eye_def)
  show ?thesis
    using len below row by (auto simp: rows length_unit_row)
qed

lemma shape_fold_set2: "shape (fold (\<lambda>i b. set2 b i (f i) v) xs a) = shape a"
  by (induction xs arbitrary: a) (simp_all add: set2_def)

lemma check_array_nrows: "check_array np a = Inr (b, w) \<Longrightarrow> nrows b = nrows a"
  by (auto simp: check_array_def ndarray_T_def nrows_def ncols_def
      split: if_splits ndarray.splits)

lemma np_ndarray_shape:
  "np_ndarray mem1 L = Inr a \<Longrightarrow> np_ndarray mem2 L = Inr b \<Longrightarrow> shape a = shape b"
  by (auto simp: np_ndarray_def Let_def split: if_splits)

lemma init_trans_prob_list:
  "init_trans_prob np amb (ListArg L) stay_prob n_states_arg =
     (case np_ndarray (heap amb) L of
        Inl e \<Rightarrow> Inl e
      | Inr a \<Rightarrow> map_sum id (\<lambda>r. Some (fst r)) (check_array np a))"
  by (simp add: init_trans_prob_def split: sum.splits)

lemma init_trans_prob_list_Some:
  assumes "init_trans_prob np amb (ListArg L) stay_prob n_states_arg = Inr (Some a)"
  shows "\<exists>x w. np_ndarray (heap amb) L = Inr x \<and> check_array np x = Inr (a, w)"
proof (cases "np_ndarray (heap amb) L")
  case (Inl e)
  then show ?thesis using assms by (simp add: init_trans_prob_list)
next
  case (Inr x)
  then show ?thesis
    using assms by (cases "check_array np x") (auto simp: init_trans_prob_list)
qed

lemma init_trans_prob_nrows:
  assumes "init_trans_prob np amb1 arg stay_prob n_states_arg = Inr (Some a)"
    "init_trans_prob np amb2 arg stay_prob n_states_arg = Inr (Some b)"
  shows "nrows a = nrows b"
proof (cases "shape_list arg")
  case False
  then show ?thesis
    using assms init_trans_prob_ambient [of arg np amb1 stay_prob n_states_arg amb2] by simp
next
  case True
  then obtain L where L: "arg = ListArg L" by (cases arg) (simp_all add: shape_list_def)
  obtain x wx where x: "np_ndarray (heap amb1) L = Inr x" "check_array np x = Inr (a, wx)"
    using init_trans_prob_list_Some assms(1) unfolding L by blast
  obtain y wy where y: "np_ndarray (heap amb2) L = Inr y" "check_array np y = Inr (b, wy)"
    using init_trans_prob_list_Some assms(2) unfolding L by blast
  have "nrows x = nrows y" using np_ndarray_shape [OF x(1) y(1)] by (simp add: nrows_def)
  then show ?thesis using check_array_nrows [OF x(2)] check_array_nrows [OF y(2)] by simp
qed

lemma HMM_init_parts:
  assumes "HMM_init np amb arg stay_prob n_states_arg seed = Inr h"
  shows "init_trans_prob np amb arg stay_prob n_states_arg = Inr (Some (trans_prob h)) \<and>
         n_states h = nrows (trans_prob h) \<and> default_rng np amb seed = Inr (rng h)"
  using assms by (auto simp: HMM_init_def split: sum.splits option.splits)


lemma shape_fill_diagonal: "shape (fill_diagonal a v) = shape a"
  unfolding fill_diagonal_def by (rule shape_fold_set2 [where f = "\<lambda>i. i"])

lemma shape_fill_diagonal_from_col1: "shape (fill_diagonal_from_col1 a v) = shape a"
  unfolding fill_diagonal_from_col1_def by (rule shape_fold_set2 [where f = Suc])

lemma np_full_shape: "np_full r c v = Inr a \<Longrightarrow> shape a = [nat r, nat c]"
  by (auto simp: np_full_def split: if_splits)

lemma construct_sequence_shape:
  assumes "construct_sequence_trans_prob p n = Inr a"
  shows "shape a = [nat n, nat n]"
proof (cases "np_full n n 0")
  case (Inl e)
  then show ?thesis using assms by (simp add: construct_sequence_trans_prob_def)
next
  case (Inr z)
  let ?b = "fill_diagonal_from_col1 (fill_diagonal z p) (1 - p)"
  have b: "shape ?b = [nat n, nat n]"
    using np_full_shape [OF Inr] by (simp add: shape_fill_diagonal shape_fill_diagonal_from_col1)
  have "a = set2 ?b (nrows ?b - 1) 0 (1 - p)"
    using assms Inr by (simp add: construct_sequence_trans_prob_def Let_def split: if_splits)
  then show ?thesis using b by (simp add: set2_def)
qed

lemma construct_uniform_shape:
  assumes "construct_uniform_trans_prob p n = Inr a"
  shows "shape a = [nat n, nat n]"
proof (cases "np_full n n ((1 - p) / real_of_int (n - 1))")
  case (Inl e)
  then show ?thesis
    using assms by (simp add: construct_uniform_trans_prob_def Let_def split: if_splits)
next
  case (Inr z)
  have "a = fold (\<lambda>i b. set2 b i i p) [0..<nat n] z"
    using assms Inr by (simp add: construct_uniform_trans_prob_def Let_def split: if_splits)
  then show ?thesis
    using np_full_shape [OF Inr] shape_fold_set2 [where f = "\<lambda>i. i"] by simp
qed


lemma map_sum_Some_eq: "map_sum id Some r = Inr (Some a) \<longleftrightarrow> r = Inr a"
  by (cases r) auto

lemma named_spec_shape:
  assumes "init_trans_prob np amb arg stay_prob (Some n) = Inr (Some a)"
    "(\<exists>s. arg = StrArg s) \<or> arg = NoneArg"
  shows "shape a = [nat n, nat n]"
proof (cases "n = 1")
  case True
  have "init_trans_prob np amb arg stay_prob (Some 1) = Inr (Some a)"
    using assms(1) True by simp
  then have "a = NDArray [1, 1] [1]"
    using assms(2) by (auto simp: init_trans_prob_def np_ones_1_1 split: if_splits)
  then show ?thesis using True by simp
next
  case False
  then obtain s where s: "arg = StrArg s"
    using assms by (auto simp: init_trans_prob_def)
  show ?thesis
  proof (cases "s = ''sequence''")
    case True
    then obtain p where "construct_sequence_trans_prob p n = Inr a"
      using assms(1) False unfolding s init_trans_prob_def
      by (cases stay_prob) (simp_all add: map_sum_Some_eq)
    then show ?thesis by (rule construct_sequence_shape)
  next
    case False
    then have u: "s = ''uniform''"
      using assms(1) unfolding s init_trans_prob_def by (simp split: if_splits)
    obtain p where "construct_uniform_trans_prob p n = Inr a"
      using assms(1) \<open>n \<noteq> 1\<close> unfolding s u init_trans_prob_def
      by (cases stay_prob) (simp_all add: map_sum_Some_eq split: if_splits)
    then show ?thesis by (rule construct_uniform_shape)
  qed
qed


text \<open>
  C8. Every constructed \<^verbatim>\<open>MS_HMM_MVN\<close> hands to the observation model, and keeps as
  its state time course, the stack \<open>[alpha, gamma]\<close> of the sequences of two chains:
  both are built from the same \<^verbatim>\<open>trans_prob\<close>, stay probability and number of states,
  the first with the seed plus one and the second with the seed plus two (each with a
  generator of its own from the operating system when the seed is None), each sequence is
  what \<^verbatim>\<open>generate_states\<close> returns for its chain alone, and both have \<open>n_samples\<close>
  one-hot rows of \<open>n_states\<close> columns, the number of states of the two chains (the number
  passed to the constructor when \<^verbatim>\<open>trans_prob\<close> is a string or None).
\<close>

theorem ms_state_time_course:
  assumes "MS_HMM_MVN_init np simulate_data amb1 amb2 obs_n_modes n_samples arg stay_prob
             random_seed = Inr sim"
  shows "\<exists>a g alpha gamma a' g'.
     HMM_init np amb1 arg stay_prob obs_n_modes (map_option (\<lambda>s. s + 1) random_seed) = Inr a \<and>
     HMM_init np amb2 arg stay_prob obs_n_modes (map_option (\<lambda>s. s + 2) random_seed) = Inr g \<and>
     generate_states np a n_samples = Inr (alpha, a') \<and>
     generate_states np g n_samples = Inr (gamma, g') \<and>
     state_time_course sim = [alpha, gamma] \<and>
     simulate_data [alpha, gamma] = Inr (time_series sim) \<and>
     n_states a = n_states g \<and>
     (\<not> shape_list arg \<longrightarrow> trans_prob a = trans_prob g) \<and>
     ((\<exists>s. arg = StrArg s) \<or> arg = NoneArg \<longrightarrow> obs_n_modes = Some (int (n_states a))) \<and>
     length alpha = n_samples \<and> length gamma = n_samples \<and>
     (\<forall>t<n_samples. (\<exists>k<n_states a. alpha ! t = unit_row (n_states a) k) \<and>
                      (\<exists>k<n_states a. gamma ! t = unit_row (n_states a) k)) \<and>
     (case random_seed of
        None \<Rightarrow> rng a = os_rng amb1 \<and> rng g = os_rng amb2
      | Some s \<Rightarrow> rng a = seed_rng np (nat (s + 1)) \<and> rng g = seed_rng np (nat (s + 2)) \<and>
                  nat (s + 1) \<noteq> nat (s + 2))"
proof -
  let ?s1 = "map_option (\<lambda>s. s + 1) random_seed" and ?s2 = "map_option (\<lambda>s. s + 2) random_seed"
  obtain a where a: "HMM_init np amb1 arg stay_prob obs_n_modes ?s1 = Inr a"
    using assms by (cases "HMM_init np amb1 arg stay_prob obs_n_modes ?s1")
      (simp_all add: MS_HMM_MVN_init_def)
  obtain g where g: "HMM_init np amb2 arg stay_prob obs_n_modes ?s2 = Inr g"
    using assms a by (cases "HMM_init np amb2 arg stay_prob obs_n_modes ?s2")
      (simp_all add: MS_HMM_MVN_init_def)
  obtain alpha a' where al: "generate_states np a n_samples = Inr (alpha, a')"
    using assms a g by (cases "generate_states np a n_samples")
      (auto simp: MS_HMM_MVN_init_def)
  obtain gamma g' where ga: "generate_states np g n_samples = Inr (gamma, g')"
    using assms a g al by (cases "generate_states np g n_samples")
      (auto simp: MS_HMM_MVN_init_def)
  obtain ts where ts: "simulate_data [alpha, gamma] = Inr ts"
    using assms a g al ga by (cases "simulate_data [alpha, gamma]")
      (auto simp: MS_HMM_MVN_init_def)
  have sim: "sim = \<lparr>ms_n_states = obs_n_modes, ms_n_samples = n_samples, alpha_hmm = a',
                     gamma_hmm = g', state_time_course = [alpha, gamma], time_series = ts\<rparr>"
    using assms by (simp add: MS_HMM_MVN_init_def a g al ga ts)
  note pa = HMM_init_parts [OF a] and pg = HMM_init_parts [OF g]
  have n: "n_states a = n_states g"
    using init_trans_prob_nrows [of np amb1 arg stay_prob obs_n_modes "trans_prob a" amb2
        "trans_prob g"] pa pg by simp
  have tp: "trans_prob a = trans_prob g" if "\<not> shape_list arg"
    using init_trans_prob_ambient [OF that, of np amb1 stay_prob obs_n_modes amb2] pa pg by simp
  have named: "obs_n_modes = Some (int (n_states a))"
    if nm: "(\<exists>s. arg = StrArg s) \<or> arg = NoneArg"
  proof (cases obs_n_modes)
    case None
    then show ?thesis
      using pa nm by (auto simp: init_trans_prob_def split: if_splits option.splits)
  next
    case (Some m)
    have sh: "shape (trans_prob a) = [nat m, nat m]"
      using named_spec_shape [OF _ nm, of np amb1 stay_prob m "trans_prob a"] pa Some by simp
    have "0 \<le> m"
      using pa nm Some construct_sequence_trans_prob_def
      by (auto simp: init_trans_prob_def construct_sequence_trans_prob_def
          construct_uniform_trans_prob_def np_full_def Let_def split: if_splits option.splits)
    then show ?thesis using sh pa Some by (simp add: nrows_def)
  qed
  note sa = generate_states_shape [OF al] and sg = generate_states_shape [OF ga]
  have seeds: "(case random_seed of
        None \<Rightarrow> rng a = os_rng amb1 \<and> rng g = os_rng amb2
      | Some s \<Rightarrow> rng a = seed_rng np (nat (s + 1)) \<and> rng g = seed_rng np (nat (s + 2)) \<and>
                  nat (s + 1) \<noteq> nat (s + 2))"
    using pa pg by (auto simp: default_rng_def split: option.splits if_splits)
  show ?thesis
    using a g al ga ts n tp named sa sg seeds unfolding sim
    by (intro exI [of _ a] exI [of _ g] exI [of _ alpha] exI [of _ gamma] exI [of _ a']
        exI [of _ g']) (simp add: n [symmetric])
qed



lemma ms_example:
  "MS_HMM_MVN_init lcg_numpy count_rows zero_ambient other_ambient (Some 3) 5
     (StrArg ''uniform'') (Some (9 / 10)) (Some 0) =
   Inr \<lparr>ms_n_states = Some 3, ms_n_samples = 5,
        alpha_hmm = uniform3\<lparr>rng := 16\<rparr>, gamma_hmm = uniform3\<lparr>rng := 17\<rparr>,
        state_time_course =
          [[[1, 0, 0], [0, 0, 1], [0, 1, 0], [1, 0, 0], [0, 1, 0]],
           [[1, 0, 0], [0, 1, 0], [0, 0, 1], [1, 0, 0], [1, 0, 0]]],
        time_series = 10\<rparr>"
  by code_simp


theorem ms_state_time_course_witness:
  "\<exists>sim. MS_HMM_MVN_init lcg_numpy count_rows zero_ambient other_ambient (Some 3) 5
            (StrArg ''uniform'') (Some (9 / 10)) (Some 0) = Inr sim \<and>
         state_time_course sim =
           [[[1, 0, 0], [0, 0, 1], [0, 1, 0], [1, 0, 0], [0, 1, 0]],
            [[1, 0, 0], [0, 1, 0], [0, 0, 1], [1, 0, 0], [1, 0, 0]]] \<and>
         length (state_time_course sim) = 2 \<and>
         length (state_time_course sim ! 0) = 5 \<and> length (state_time_course sim ! 1) = 5 \<and>
         count_rows (state_time_course sim) = Inr (time_series sim)"
proof -
  obtain a g alpha gamma where w:
    "state_time_course
       \<lparr>ms_n_states = Some 3, ms_n_samples = 5,
        alpha_hmm = uniform3\<lparr>rng := 16\<rparr>, gamma_hmm = uniform3\<lparr>rng := 17\<rparr>,
        state_time_course =
          [[[1, 0, 0], [0, 0, 1], [0, 1, 0], [1, 0, 0], [0, 1, 0]],
           [[1, 0, 0], [0, 1, 0], [0, 0, 1], [1, 0, 0], [1, 0, 0]]],
        time_series = (10::nat)\<rparr> = [alpha, gamma]"
    "length alpha = 5" "length gamma = 5"
    using ms_state_time_course [OF ms_example] by blast
  have "length [alpha, gamma] = 2" "length ([alpha, gamma] ! 0) = 5"
    "length ([alpha, gamma] ! 1) = 5"
    using w(2,3) by simp_all
  then show ?thesis
    unfolding w(1) [symmetric] by (simp add: ms_example count_rows_def)
qed

section \<open>The composite sequence of the hierarchy\<close>

lemma assign_rows_nth:
  "distinct ts \<Longrightarrow> length vs = length ts \<Longrightarrow> \<forall>t\<in>set ts. t < length stc \<Longrightarrow>
   length (assign_rows stc ts vs) = length stc \<and>
   (\<forall>j<length ts. assign_rows stc ts vs ! (ts ! j) = vs ! j) \<and>
   (\<forall>t. t \<notin> set ts \<longrightarrow> assign_rows stc ts vs ! t = stc ! t)"
proof (induction ts arbitrary: stc vs)
  case Nil
  then show ?case by simp
next
  case (Cons t ts)
  then obtain v vs' where vs: "vs = v # vs'" by (cases vs) auto
  let ?stc = "stc[t := v]"
  have ih: "length (assign_rows ?stc ts vs') = length ?stc"
    "\<forall>j<length ts. assign_rows ?stc ts vs' ! (ts ! j) = vs' ! j"
    "\<forall>u. u \<notin> set ts \<longrightarrow> assign_rows ?stc ts vs' ! u = ?stc ! u"
    using Cons.IH [of vs' ?stc] Cons.prems vs by auto
  have t: "t \<notin> set ts" "t < length stc" using Cons.prems by auto
  have hd: "assign_rows ?stc ts vs' ! t = v" using ih(3) t by simp
  have nth: "assign_rows ?stc ts vs' ! ((t # ts) ! j) = (v # vs') ! j" if "j < length (t # ts)" for j
    using that hd ih(2) by (cases j) auto
  have out: "assign_rows ?stc ts vs' ! u = stc ! u" if "u \<notin> set (t # ts)" for u
    using that ih(3) by auto
  show ?case unfolding vs using ih(1) nth out by simp
qed

lemma filter_upt_rank:
  assumes "t < n" "P t"
  shows "length (filter P [0..<t]) < length (filter P [0..<n]) \<and>
         filter P [0..<n] ! length (filter P [0..<t]) = t"
proof -
  have "[0..<n] = [0..<t] @ t # [Suc t..<n]"
    using assms(1) upt_add_eq_append [of 0 t "n - t"] by (simp add: upt_conv_Cons)
  then have "filter P [0..<n] = filter P [0..<t] @ t # filter P [Suc t..<n]"
    using assms(2) by simp
  then show ?thesis by (simp add: nth_append)
qed

lemma unit_row_one: "k < K \<Longrightarrow> j < K \<Longrightarrow> (unit_row K k ! j = 1) = (j = k)"
  by (simp add: unit_row_def)

lemma one_hot_rows_unique:
  assumes "one_hot_rows K n stc" "t < n" "i < K" "k < K" "stc ! t ! i = 1" "stc ! t ! k = 1"
  shows "i = k"
proof -
  obtain k0 where k0: "k0 < K" "stc ! t = unit_row K k0"
    using assms(1,2) by (auto simp: one_hot_rows_def)
  show ?thesis using assms(3-6) k0 by (simp add: unit_row_one)
qed

lemma one_hot_rows_width:
  assumes "one_hot_rows K n stc" "i < K"
  shows "\<not> list_ex (\<lambda>r. length r \<le> i) stc"
proof -
  have "length r = K" if rs: "r \<in> set stc" for r
  proof -
    obtain t where t: "t < length stc" "stc ! t = r"
      using rs by (auto simp: in_set_conv_nth)
    then obtain k where "stc ! t = unit_row K k"
      using assms(1) by (auto simp: one_hot_rows_def)
    then show ?thesis using t by (simp add: length_unit_row)
  qed
  then show ?thesis using assms(2) by (auto simp: list_ex_iff)
qed


lemma one_hot_rows_label:
  "one_hot_rows K n stc \<Longrightarrow> t < n \<Longrightarrow> \<exists>k<K. stc ! t = unit_row K k"
  by (simp add: one_hot_rows_def)

lemma bottom_loop_step:
  assumes top: "one_hot_rows K n top_stc" and i: "i < K"
    and hm: "length hmms = K"
    and gen: "generate_states np (hmms ! i) n = Inr (one_hot, h')"
    and w: "n_states (hmms ! i) = W"
  shows "bottom_loop np n top_stc W (i # rest) hmms stc =
         bottom_loop np n top_stc W rest (hmms[i := h'])
           (assign_rows stc (filter (\<lambda>t. top_stc ! t ! i = 1) [0..<n])
              (map (broadcast_row W)
                 (take (length (filter (\<lambda>t. top_stc ! t ! i = 1) [0..<n])) one_hot)))"
proof -
  have l: "length top_stc = n" using top by (simp add: one_hot_rows_def)
  show ?thesis
    using one_hot_rows_width [OF top i] i hm gen w by (simp add: l Let_def)
qed

lemma assigned_rows:
  fixes i :: nat
  assumes top: "one_hot_rows K n top_stc" and len: "length stc = n"
    and oh: "length one_hot = n" "\<forall>t<n. length (one_hot ! t) = W"
  defines "tpa \<equiv> filter (\<lambda>t. top_stc ! t ! i = 1) [0..<n]"
  defines "stc1 \<equiv> assign_rows stc tpa (map (broadcast_row W) (take (length tpa) one_hot))"
  shows "length stc1 = n \<and>
         (\<forall>t<n. top_stc ! t ! i = 1 \<longrightarrow>
            stc1 ! t = map real_of_int (one_hot ! active_rank top_stc i t)) \<and>
         (\<forall>t<n. top_stc ! t ! i \<noteq> 1 \<longrightarrow> stc1 ! t = stc ! t)"
proof -
  let ?vs = "map (broadcast_row W) (take (length tpa) one_hot)"
  have le: "length tpa \<le> n"
    using length_filter_le [of "\<lambda>t. top_stc ! t ! i = 1" "[0..<n]"] by (simp add: tpa_def)
  have d: "distinct tpa" by (simp add: tpa_def)
  have lv: "length ?vs = length tpa" using le oh(1) by simp
  have b: "\<forall>t\<in>set tpa. t < length stc" by (simp add: tpa_def len)
  note a = assign_rows_nth [OF d lv b, folded stc1_def]
  have act: "stc1 ! t = map real_of_int (one_hot ! active_rank top_stc i t)"
    if t: "t < n" "top_stc ! t ! i = 1" for t
  proof -
    let ?r = "active_rank top_stc i t"
    have r: "?r < length tpa" "tpa ! ?r = t"
      using filter_upt_rank [of t n "\<lambda>u. top_stc ! u ! i = 1"] t
      by (simp_all add: tpa_def active_rank_def)
    have "stc1 ! t = ?vs ! ?r" using a r by metis
    also have "\<dots> = broadcast_row W (one_hot ! ?r)" using r(1) le oh(1) by simp
    also have "\<dots> = map real_of_int (one_hot ! ?r)"
      using r(1) le oh(2) by (simp add: broadcast_row_def)
    finally show ?thesis .
  qed
  have inact: "stc1 ! t = stc ! t" if "t < n" "top_stc ! t ! i \<noteq> 1" for t
  proof -
    have "t \<notin> set tpa" using that by (simp add: tpa_def)
    then show ?thesis using a by simp
  qed
  show ?thesis using a len act inact by simp
qed

lemma bottom_loop_inv:
  assumes top: "one_hot_rows K n top_stc"
    and gen: "\<forall>k<K. \<exists>h'. generate_states np (bottoms ! k) n = Inr (sample_of np (bottoms ! k) n, h')"
    and shape: "\<forall>k<K. length (sample_of np (bottoms ! k) n) = n \<and>
                  (\<forall>t<n. length (sample_of np (bottoms ! k) n ! t) = W)"
    and width: "\<forall>k<K. n_states (bottoms ! k) = W"
  shows "i \<le> K \<Longrightarrow> length hmms = K \<Longrightarrow> (\<forall>j. i \<le> j \<and> j < K \<longrightarrow> hmms ! j = bottoms ! j) \<Longrightarrow>
         length stc = n \<Longrightarrow>
         \<exists>stc' hmms'. bottom_loop np n top_stc W [i..<K] hmms stc = Inr (stc', hmms') \<and>
            length stc' = n \<and>
            (\<forall>t<n. \<forall>k. i \<le> k \<and> k < K \<and> top_stc ! t ! k = 1 \<longrightarrow>
               stc' ! t =
                 map real_of_int (sample_of np (bottoms ! k) n ! active_rank top_stc k t)) \<and>
            (\<forall>t<n. (\<forall>k. i \<le> k \<and> k < K \<longrightarrow> top_stc ! t ! k \<noteq> 1) \<longrightarrow> stc' ! t = stc ! t)"
proof (induction "K - i" arbitrary: i hmms stc)
  case 0
  then have "i = K" by simp
  then show ?case using 0 by auto
next
  case (Suc d)
  then have i: "i < K" by simp
  let ?oh = "sample_of np (bottoms ! i) n"
  obtain h' where g: "generate_states np (bottoms ! i) n = Inr (?oh, h')"
    using gen i by blast
  have hi: "hmms ! i = bottoms ! i" using Suc.prems(3) i by simp
  define tpa where "tpa = filter (\<lambda>t. top_stc ! t ! i = 1) [0..<n]"
  define stc1 where
    "stc1 = assign_rows stc tpa (map (broadcast_row W) (take (length tpa) ?oh))"
  have step: "bottom_loop np n top_stc W [i..<K] hmms stc =
              bottom_loop np n top_stc W [Suc i..<K] (hmms[i := h']) stc1"
    using bottom_loop_step [OF top i Suc.prems(2), of np ?oh h' W "[Suc i..<K]" stc]
      g width i hi by (simp add: upt_conv_Cons stc1_def tpa_def)
  have s1: "length stc1 = n"
    "\<forall>t<n. top_stc ! t ! i = 1 \<longrightarrow> stc1 ! t = map real_of_int (?oh ! active_rank top_stc i t)"
    "\<forall>t<n. top_stc ! t ! i \<noteq> 1 \<longrightarrow> stc1 ! t = stc ! t"
    using assigned_rows [OF top Suc.prems(4), of ?oh W i] shape i
    by (simp_all add: stc1_def tpa_def)
  have d: "d = K - Suc i" using Suc.hyps(2) by simp
  have pre: "Suc i \<le> K" "length (hmms[i := h']) = K"
    "\<forall>j. Suc i \<le> j \<and> j < K \<longrightarrow> hmms[i := h'] ! j = bottoms ! j"
    using i Suc.prems(2,3) by simp_all
  obtain stc' hmms' where r:
    "bottom_loop np n top_stc W [Suc i..<K] (hmms[i := h']) stc1 = Inr (stc', hmms')"
    "length stc' = n"
    "\<forall>t<n. \<forall>k. Suc i \<le> k \<and> k < K \<and> top_stc ! t ! k = 1 \<longrightarrow>
       stc' ! t = map real_of_int (sample_of np (bottoms ! k) n ! active_rank top_stc k t)"
    "\<forall>t<n. (\<forall>k. Suc i \<le> k \<and> k < K \<longrightarrow> top_stc ! t ! k \<noteq> 1) \<longrightarrow> stc' ! t = stc1 ! t"
    using Suc.hyps(1) [OF d pre s1(1)] by blast
  have act: "stc' ! t = map real_of_int (sample_of np (bottoms ! k) n ! active_rank top_stc k t)"
    if t: "t < n" and k: "i \<le> k" "k < K" "top_stc ! t ! k = 1" for t k
  proof (cases "k = i")
    case False
    then show ?thesis using r(3) t k by simp
  next
    case True
    have "top_stc ! t ! k' \<noteq> 1" if "Suc i \<le> k'" "k' < K" for k'
      using one_hot_rows_unique [OF top t i that(2)] k(3) that(1) True by auto
    then have "stc' ! t = stc1 ! t" using r(4) t by simp
    then show ?thesis using s1(2) t k(3) True by simp
  qed
  have inact: "stc' ! t = stc ! t"
    if t: "t < n" and none: "\<forall>k. i \<le> k \<and> k < K \<longrightarrow> top_stc ! t ! k \<noteq> 1" for t
  proof -
    have "stc' ! t = stc1 ! t" using r(4) t none by simp
    moreover have "top_stc ! t ! i \<noteq> 1" using none i by simp
    ultimately show ?thesis using s1(3) t by simp
  qed
  show ?case unfolding step using r(1,2) act inact by simp
qed


lemma bottom_loop_chains:
  assumes top: "one_hot_rows K n top_stc"
    and gen: "\<forall>k<K. \<exists>h'. generate_states np (bottoms ! k) n = Inr (sample_of np (bottoms ! k) n, h')"
    and width: "\<forall>k<K. n_states (bottoms ! k) = W"
  shows "i \<le> K \<Longrightarrow> length hmms = K \<Longrightarrow> (\<forall>j. i \<le> j \<and> j < K \<longrightarrow> hmms ! j = bottoms ! j) \<Longrightarrow>
         bottom_loop np n top_stc W [i..<K] hmms stc = Inr (stc', hmms') \<Longrightarrow>
         length hmms' = K \<and>
         (\<forall>k. i \<le> k \<and> k < K \<longrightarrow>
            generate_states np (bottoms ! k) n = Inr (sample_of np (bottoms ! k) n, hmms' ! k)) \<and>
         (\<forall>j<i. hmms' ! j = hmms ! j)"
proof (induction "K - i" arbitrary: i hmms stc)
  case 0
  then have "i = K" by simp
  then show ?case using 0 by auto
next
  case (Suc d)
  then have i: "i < K" by simp
  let ?oh = "sample_of np (bottoms ! i) n"
  obtain h' where g: "generate_states np (bottoms ! i) n = Inr (?oh, h')"
    using gen i by blast
  have hi: "hmms ! i = bottoms ! i" using Suc.prems(3) i by simp
  define stc1 where
    "stc1 = assign_rows stc (filter (\<lambda>t. top_stc ! t ! i = 1) [0..<n])
       (map (broadcast_row W)
          (take (length (filter (\<lambda>t. top_stc ! t ! i = 1) [0..<n])) ?oh))"
  have step: "bottom_loop np n top_stc W [i..<K] hmms stc =
              bottom_loop np n top_stc W [Suc i..<K] (hmms[i := h']) stc1"
    using bottom_loop_step [OF top i Suc.prems(2), of np ?oh h' W "[Suc i..<K]" stc]
      g width i hi by (simp add: upt_conv_Cons stc1_def)
  have run: "bottom_loop np n top_stc W [Suc i..<K] (hmms[i := h']) stc1 = Inr (stc', hmms')"
    using Suc.prems(4) by (simp add: step)
  have d: "d = K - Suc i" using Suc.hyps(2) by simp
  have pre: "Suc i \<le> K" "length (hmms[i := h']) = K"
    "\<forall>j. Suc i \<le> j \<and> j < K \<longrightarrow> hmms[i := h'] ! j = bottoms ! j"
    using i Suc.prems(2,3) by simp_all
  have ih: "length hmms' = K"
    "\<forall>k. Suc i \<le> k \<and> k < K \<longrightarrow>
       generate_states np (bottoms ! k) n = Inr (sample_of np (bottoms ! k) n, hmms' ! k)"
    "\<forall>j<Suc i. hmms' ! j = hmms[i := h'] ! j"
    using Suc.hyps(1) [OF d pre run] by simp_all
  have here: "hmms' ! i = h'" using ih(3) i Suc.prems(2) by simp
  have chains: "generate_states np (bottoms ! k) n = Inr (sample_of np (bottoms ! k) n, hmms' ! k)"
    if k: "i \<le> k" "k < K" for k
  proof (cases "k = i")
    case True
    then show ?thesis using g here by simp
  next
    case False
    then show ?thesis using ih(2) k by simp
  qed
  have before: "hmms' ! j = hmms ! j" if j: "j < i" for j
    using ih(3) j by simp
  show ?case using ih(1) chains before by simp
qed

lemma valid_sample:
  assumes "choice_ok np" "valid_hmm h" "1 \<le> n"
  shows "(\<exists>h'. generate_states np h n = Inr (sample_of np h n, h')) \<and>
         length (sample_of np h n) = n \<and>
         (\<forall>t<n. length (sample_of np h n ! t) = n_states h) \<and>
         one_hot_rows (n_states h) n (sample_of np h n)"
proof -
  obtain one_hot h' where g: "generate_states np h n = Inr (one_hot, h')"
    using generate_states_run [OF assms] by blast
  have s: "sample_of np h n = one_hot" by (simp add: sample_of_def g)
  show ?thesis
    using generate_states_shape [OF g] g by (simp add: s one_hot_rows_def)
qed

lemma active_rank_le: "active_rank top_stc k t \<le> t"
  using length_filter_le [of "\<lambda>u. top_stc ! u ! k = 1" "[0..<t]"] by (simp add: active_rank_def)

lemma top_generate_ok:
  assumes "choice_ok np" "1 \<le> n" "top_ok np hsmm_generate K chain n"
  shows "\<exists>top_stc top'. top_generate_states np hsmm_generate chain n = Inr (top_stc, top') \<and>
           one_hot_rows K n top_stc"
proof (cases chain)
  case (TopHMM h)
  then have v: "valid_hmm h" "n_states h = K" using assms(3) by (simp_all add: top_ok_def)
  obtain h' where "generate_states np h n = Inr (sample_of np h n, h')"
    using valid_sample [OF assms(1) v(1) assms(2)] by blast
  moreover have "one_hot_rows K n (sample_of np h n)"
    using valid_sample [OF assms(1) v(1) assms(2)] v(2) by simp
  ultimately show ?thesis using TopHMM by simp
next
  case (TopHSMM x)
  then show ?thesis using assms(3) by (auto simp: top_ok_def)
qed

text \<open>
  C2. For a hierarchy of \<open>K\<close> valid bottom level chains over the states of the
  simulation, under a top level chain over \<open>K\<close> labels, and \<open>n_samples \<ge> 1\<close>,
  \<^verbatim>\<open>generate_states\<close> returns \<open>n_samples\<close> rows. At every sample one top level
  label is active, and if \<open>k\<close> is active at \<open>t\<close>, row \<open>t\<close> is row \<open>r\<close> of the
  sequence of \<open>n_samples\<close> rows that bottom level chain \<open>k\<close> returns for the full
  length, \<open>r\<close> being the rank of \<open>t\<close> among the samples at which \<open>k\<close> is active: only
  the first rows of that sequence, as many as there are active samples, are used. Every
  bottom level chain is asked for the full length, active or not: the chain the
  simulation holds afterwards at place \<open>k\<close> is the chain that call leaves behind.
\<close>

theorem hier_composite:
  assumes ch: "choice_ok np" and n: "1 \<le> n_samples"
    and nb: "n_bottom_level_hmms sim = length (bottom_level_hmms sim)"
    and bs: "\<forall>h\<in>set (bottom_level_hmms sim). valid_hmm h \<and> n_states h = hier_n_states sim"
    and tp: "top_ok np hsmm_generate (n_bottom_level_hmms sim) (top_level_hmm sim) n_samples"
  shows "\<exists>stc sim' top_stc top'.
     top_generate_states np hsmm_generate (top_level_hmm sim) n_samples = Inr (top_stc, top') \<and>
     hier_generate_states np hsmm_generate amb sim n_samples = Inr (stc, sim') \<and>
     top_level_stc sim' = top_stc \<and> top_level_hmm sim' = top' \<and> length stc = n_samples \<and>
     length (bottom_level_hmms sim') = n_bottom_level_hmms sim \<and>
     (\<forall>t<n_samples. \<exists>k<n_bottom_level_hmms sim. top_stc ! t ! k = 1) \<and>
     (\<forall>k<n_bottom_level_hmms sim.
        generate_states np (bottom_level_hmms sim ! k) n_samples =
          Inr (sample_of np (bottom_level_hmms sim ! k) n_samples, bottom_level_hmms sim' ! k) \<and>
        length (sample_of np (bottom_level_hmms sim ! k) n_samples) = n_samples \<and>
        (\<forall>t<n_samples. top_stc ! t ! k = 1 \<longrightarrow>
           active_rank top_stc k t < n_samples \<and>
           stc ! t = map real_of_int
             (sample_of np (bottom_level_hmms sim ! k) n_samples ! active_rank top_stc k t)))"
proof -
  let ?K = "n_bottom_level_hmms sim" and ?bs = "bottom_level_hmms sim" and ?W = "hier_n_states sim"
  obtain top_stc top' where t:
    "top_generate_states np hsmm_generate (top_level_hmm sim) n_samples = Inr (top_stc, top')"
    "one_hot_rows ?K n_samples top_stc"
    using top_generate_ok [OF ch n tp] by blast
  have b: "valid_hmm (?bs ! k) \<and> n_states (?bs ! k) = ?W" if "k < ?K" for k
    using bs nb that by simp
  have vk: "(\<exists>h'. generate_states np (?bs ! k) n_samples =
                  Inr (sample_of np (?bs ! k) n_samples, h')) \<and>
            length (sample_of np (?bs ! k) n_samples) = n_samples \<and>
            (\<forall>t<n_samples. length (sample_of np (?bs ! k) n_samples ! t) = ?W)"
    if "k < ?K" for k
  proof -
    have v: "valid_hmm (?bs ! k)" and w: "n_states (?bs ! k) = ?W" using b that by simp_all
    show ?thesis using valid_sample [OF ch v n] w by simp
  qed
  have gen: "\<forall>k<?K. \<exists>h'. generate_states np (?bs ! k) n_samples =
                Inr (sample_of np (?bs ! k) n_samples, h')"
    using vk by simp
  have shape: "\<forall>k<?K. length (sample_of np (?bs ! k) n_samples) = n_samples \<and>
                  (\<forall>t<n_samples. length (sample_of np (?bs ! k) n_samples ! t) = ?W)"
    using vk by simp
  have width: "\<forall>k<?K. n_states (?bs ! k) = ?W" using b by simp
  let ?stc0 = "np_empty (heap amb) n_samples ?W"
  have l0: "length ?stc0 = n_samples" by (simp add: np_empty_def)
  have p: "0 \<le> ?K" "length ?bs = ?K" "\<forall>j. 0 \<le> j \<and> j < ?K \<longrightarrow> ?bs ! j = ?bs ! j"
    by (simp_all add: nb)
  obtain stc hmms' where r:
    "bottom_loop np n_samples top_stc ?W [0..<?K] ?bs ?stc0 = Inr (stc, hmms')"
    "length stc = n_samples"
    "\<forall>t<n_samples. \<forall>k. 0 \<le> k \<and> k < ?K \<and> top_stc ! t ! k = 1 \<longrightarrow>
       stc ! t = map real_of_int (sample_of np (?bs ! k) n_samples ! active_rank top_stc k t)"
    using bottom_loop_inv [OF t(2) gen shape width p l0] by blast
  have ch': "length hmms' = ?K"
    "\<forall>k. 0 \<le> k \<and> k < ?K \<longrightarrow>
       generate_states np (?bs ! k) n_samples = Inr (sample_of np (?bs ! k) n_samples, hmms' ! k)"
    using bottom_loop_chains [OF t(2) gen width p r(1)] by simp_all
  define sim' where
    "sim' = sim\<lparr>top_level_hmm := top', top_level_stc := top_stc, bottom_level_hmms := hmms'\<rparr>"
  have res: "hier_generate_states np hsmm_generate amb sim n_samples = Inr (stc, sim')"
    by (simp add: hier_generate_states_def t(1) r(1) sim'_def)
  have act: "\<exists>k<?K. top_stc ! t ! k = 1" if tn: "t < n_samples" for t
  proof -
    obtain k where k: "k < ?K" "top_stc ! t = unit_row ?K k"
      using one_hot_rows_label [OF t(2) tn] by blast
    have "top_stc ! t ! k = 1" using k by (simp add: unit_row_one)
    then show ?thesis using k(1) by blast
  qed
  have rows: "active_rank top_stc k t < n_samples \<and>
      stc ! t = map real_of_int (sample_of np (?bs ! k) n_samples ! active_rank top_stc k t)"
    if "k < ?K" "t < n_samples" "top_stc ! t ! k = 1" for k t
  proof
    show "active_rank top_stc k t < n_samples"
      using active_rank_le [of top_stc k t] that(2) by simp
    show "stc ! t = map real_of_int (sample_of np (?bs ! k) n_samples ! active_rank top_stc k t)"
      using r(3) that by blast
  qed
  have bs': "bottom_level_hmms sim' = hmms'" by (simp add: sim'_def)
  have per_k: "generate_states np (?bs ! k) n_samples =
          Inr (sample_of np (?bs ! k) n_samples, bottom_level_hmms sim' ! k) \<and>
        length (sample_of np (?bs ! k) n_samples) = n_samples \<and>
        (\<forall>t<n_samples. top_stc ! t ! k = 1 \<longrightarrow>
           active_rank top_stc k t < n_samples \<and>
           stc ! t = map real_of_int
             (sample_of np (?bs ! k) n_samples ! active_rank top_stc k t))"
    if "k < ?K" for k
    using vk [OF that] rows [OF that] ch'(2) that unfolding bs' by blast
  have st: "top_level_stc sim' = top_stc" "top_level_hmm sim' = top'"
    by (simp_all add: sim'_def)
  show ?thesis
  proof (intro exI conjI)
    show "top_generate_states np hsmm_generate (top_level_hmm sim) n_samples = Inr (top_stc, top')"
      by (rule t(1))
    show "hier_generate_states np hsmm_generate amb sim n_samples = Inr (stc, sim')"
      by (rule res)
    show "top_level_stc sim' = top_stc" by (rule st(1))
    show "top_level_hmm sim' = top'" by (rule st(2))
    show "length stc = n_samples" by (rule r(2))
    show "length (bottom_level_hmms sim') = ?K" using ch'(1) by (simp add: bs')
    show "\<forall>t<n_samples. \<exists>k<?K. top_stc ! t ! k = 1" using act by blast
    show "\<forall>k<?K.
        generate_states np (?bs ! k) n_samples =
          Inr (sample_of np (?bs ! k) n_samples, bottom_level_hmms sim' ! k) \<and>
        length (sample_of np (?bs ! k) n_samples) = n_samples \<and>
        (\<forall>t<n_samples. top_stc ! t ! k = 1 \<longrightarrow>
           active_rank top_stc k t < n_samples \<and>
           stc ! t = map real_of_int
             (sample_of np (?bs ! k) n_samples ! active_rank top_stc k t))"
      using per_k by blast
  qed
qed



lemma valid_flip2:
  "valid_hmm \<lparr>trans_prob = NDArray [2, 2] [1 / 2, 1 / 2, 1 / 2, 1 / 2], n_states = 2, rng = (3::nat)\<rparr>"
proof -
  let ?h = "\<lparr>trans_prob = NDArray [2, 2] [1 / 2, 1 / 2, 1 / 2, 1 / 2], n_states = 2, rng = (3::nat)\<rparr>"
  have r: "row (trans_prob ?h) 0 = [1 / 2, 1 / 2]" "row (trans_prob ?h) 1 = [1 / 2, 1 / 2]"
    by (simp_all add: row_def at2_def ncols_def upt_conv_Cons)
  have "(\<forall>x\<in>set (row (trans_prob ?h) i). 0 \<le> x) \<and> \<bar>sum_list (row (trans_prob ?h) i) - 1\<bar> \<le> tol"
    if "i < 2" for i
  proof -
    have "i = 0 \<or> i = 1" using that by arith
    then show ?thesis using r by (elim disjE) (simp_all add: tol_def)
  qed
  then show ?thesis by (simp add: valid_hmm_def wf2_def)
qed

lemma valid_uniform3_rng: "valid_hmm (uniform3\<lparr>rng := g\<rparr>)"
  using valid_uniform3 by (simp add: valid_hmm_def)

lemma hier_example_run:
  "hier_generate_states lcg_numpy no_hsmm zero_ambient hier_example 5 =
     Inr ([[1, 0, 0], [1, 0, 0], [1, 0, 0], [0, 0, 1], [0, 0, 1]],
          hier_example
            \<lparr>top_level_hmm :=
               TopHMM \<lparr>trans_prob = NDArray [2, 2] [1 / 2, 1 / 2, 1 / 2, 1 / 2], n_states = 2,
                       rng = 13\<rparr>,
             top_level_stc := [[1, 0], [1, 0], [0, 1], [0, 1], [1, 0]],
             bottom_level_hmms := [uniform3\<lparr>rng := 15\<rparr>, uniform3\<lparr>rng := 22\<rparr>]\<rparr>)"
  by code_simp

lemma hier_example_idle:
  "hier_generate_states lcg_numpy no_hsmm zero_ambient hier_example 2 =
     Inr ([[1, 0, 0], [1, 0, 0]],
          hier_example
            \<lparr>top_level_hmm :=
               TopHMM \<lparr>trans_prob = NDArray [2, 2] [1 / 2, 1 / 2, 1 / 2, 1 / 2], n_states = 2,
                       rng = 7\<rparr>,
             top_level_stc := [[1, 0], [1, 0]],
             bottom_level_hmms := [uniform3\<lparr>rng := 6\<rparr>, uniform3\<lparr>rng := 13\<rparr>]\<rparr>)"
  by code_simp

theorem hier_composite_witness:
  "(\<exists>stc sim'. hier_generate_states lcg_numpy no_hsmm zero_ambient hier_example 5 = Inr (stc, sim') \<and>
      stc = [[1, 0, 0], [1, 0, 0], [1, 0, 0], [0, 0, 1], [0, 0, 1]] \<and>
      top_level_stc sim' = [[1, 0], [1, 0], [0, 1], [0, 1], [1, 0]] \<and>
      bottom_level_hmms sim' = [uniform3\<lparr>rng := 15\<rparr>, uniform3\<lparr>rng := 22\<rparr>] \<and>
      sample_of lcg_numpy (bottom_level_hmms hier_example ! 0) 5 =
        [[1, 0, 0], [1, 0, 0], [0, 0, 1], [0, 0, 1], [0, 1, 0]] \<and>
      active_rank (top_level_stc sim') 0 4 = 2 \<and>
      stc ! 4 = map real_of_int (sample_of lcg_numpy (bottom_level_hmms hier_example ! 0) 5 ! 2)) \<and>
   (\<exists>stc sim'. hier_generate_states lcg_numpy no_hsmm zero_ambient hier_example 2 = Inr (stc, sim') \<and>
      top_level_stc sim' = [[1, 0], [1, 0]] \<and>
      generate_states lcg_numpy (bottom_level_hmms hier_example ! 1) 2 =
        Inr (sample_of lcg_numpy (bottom_level_hmms hier_example ! 1) 2,
             bottom_level_hmms sim' ! 1) \<and>
      bottom_level_hmms hier_example ! 1 = uniform3\<lparr>rng := 7\<rparr> \<and>
      bottom_level_hmms sim' ! 1 = uniform3\<lparr>rng := 13\<rparr>)"
proof -
  have n: "(1::nat) \<le> 5" and n2: "(1::nat) \<le> 2" by simp_all
  have nb: "n_bottom_level_hmms hier_example = length (bottom_level_hmms hier_example)"
    by (simp add: hier_example_def)
  have bs: "\<forall>h\<in>set (bottom_level_hmms hier_example).
              valid_hmm h \<and> n_states h = hier_n_states hier_example"
    using valid_uniform3 valid_uniform3_rng [of 7] by (simp add: hier_example_def uniform3_def)
  have tp: "top_ok lcg_numpy no_hsmm (n_bottom_level_hmms hier_example)
              (top_level_hmm hier_example) m" for m
    using valid_flip2 by (simp add: top_ok_def hier_example_def)
  obtain stc sim' top_stc where w:
    "hier_generate_states lcg_numpy no_hsmm zero_ambient hier_example 5 = Inr (stc, sim')"
    "top_level_stc sim' = top_stc"
    "\<forall>k<n_bottom_level_hmms hier_example.
        \<forall>t<5. top_stc ! t ! k = 1 \<longrightarrow>
           stc ! t = map real_of_int
             (sample_of lcg_numpy (bottom_level_hmms hier_example ! k) 5 ! active_rank top_stc k t)"
    using hier_composite [OF choice_ok_lcg n nb bs tp, of zero_ambient] by blast
  have stc: "stc = [[1, 0, 0], [1, 0, 0], [1, 0, 0], [0, 0, 1], [0, 0, 1]]"
    and top: "top_stc = [[1, 0], [1, 0], [0, 1], [0, 1], [1, 0]]"
    and chains: "bottom_level_hmms sim' = [uniform3\<lparr>rng := 15\<rparr>, uniform3\<lparr>rng := 22\<rparr>]"
    using w(1,2) by (auto simp: hier_example_run)
  have s0: "sample_of lcg_numpy (bottom_level_hmms hier_example ! 0) 5 =
        [[1, 0, 0], [1, 0, 0], [0, 0, 1], [0, 0, 1], [0, 1, 0]]"
    by (simp add: hier_example_def sample_of_def generate_uniform3)
  have rk: "active_rank top_stc 0 4 = 2" unfolding top by code_simp
  have "(0::nat) < n_bottom_level_hmms hier_example" "(4::nat) < 5" "top_stc ! 4 ! 0 = 1"
    by (simp_all add: hier_example_def top)
  then have "stc ! 4 = map real_of_int
      (sample_of lcg_numpy (bottom_level_hmms hier_example ! 0) 5 ! active_rank top_stc 0 4)"
    using w(3) by blast
  then have first: "\<exists>stc sim'.
      hier_generate_states lcg_numpy no_hsmm zero_ambient hier_example 5 = Inr (stc, sim') \<and>
      stc = [[1, 0, 0], [1, 0, 0], [1, 0, 0], [0, 0, 1], [0, 0, 1]] \<and>
      top_level_stc sim' = [[1, 0], [1, 0], [0, 1], [0, 1], [1, 0]] \<and>
      bottom_level_hmms sim' = [uniform3\<lparr>rng := 15\<rparr>, uniform3\<lparr>rng := 22\<rparr>] \<and>
      sample_of lcg_numpy (bottom_level_hmms hier_example ! 0) 5 =
        [[1, 0, 0], [1, 0, 0], [0, 0, 1], [0, 0, 1], [0, 1, 0]] \<and>
      active_rank (top_level_stc sim') 0 4 = 2 \<and>
      stc ! 4 = map real_of_int (sample_of lcg_numpy (bottom_level_hmms hier_example ! 0) 5 ! 2)"
    using w(1,2) stc top chains s0 rk by simp
  obtain stc2 sim2 where v:
    "hier_generate_states lcg_numpy no_hsmm zero_ambient hier_example 2 = Inr (stc2, sim2)"
    "\<forall>k<n_bottom_level_hmms hier_example.
        generate_states lcg_numpy (bottom_level_hmms hier_example ! k) 2 =
          Inr (sample_of lcg_numpy (bottom_level_hmms hier_example ! k) 2,
               bottom_level_hmms sim2 ! k)"
    using hier_composite [OF choice_ok_lcg n2 nb bs tp, of zero_ambient] by blast
  have one: "(1::nat) < n_bottom_level_hmms hier_example" by (simp add: hier_example_def)
  have g: "generate_states lcg_numpy (bottom_level_hmms hier_example ! 1) 2 =
        Inr (sample_of lcg_numpy (bottom_level_hmms hier_example ! 1) 2,
             bottom_level_hmms sim2 ! 1)"
    using v(2) one by blast
  have top2: "top_level_stc sim2 = [[1, 0], [1, 0]]"
    and idle: "bottom_level_hmms sim2 ! 1 = uniform3\<lparr>rng := 13\<rparr>"
    using v(1) by (auto simp: hier_example_idle)
  have b1: "bottom_level_hmms hier_example ! 1 = uniform3\<lparr>rng := 7\<rparr>"
    by (simp add: hier_example_def)
  have second: "\<exists>stc sim'.
      hier_generate_states lcg_numpy no_hsmm zero_ambient hier_example 2 = Inr (stc, sim') \<and>
      top_level_stc sim' = [[1, 0], [1, 0]] \<and>
      generate_states lcg_numpy (bottom_level_hmms hier_example ! 1) 2 =
        Inr (sample_of lcg_numpy (bottom_level_hmms hier_example ! 1) 2,
             bottom_level_hmms sim' ! 1) \<and>
      bottom_level_hmms hier_example ! 1 = uniform3\<lparr>rng := 7\<rparr> \<and>
      bottom_level_hmms sim' ! 1 = uniform3\<lparr>rng := 13\<rparr>"
    using v(1) top2 g b1 idle by blast
  show ?thesis using first second by (rule conjI)
qed

end
